theory Spec2Isabelle
  imports Complex_Main "HOL-Library.Monad_Syntax" "HOL-Library.Sublist" "HOL-Library.Char_ord"
    "HOL-Library.List_Lexorder"
begin

section \<open>Numbers\<close>

text \<open>
  The program computes with IEEE doubles. Here a number is a real: no rounding and no
  overflow. Where a JavaScript operation on real arguments yields \<open>NaN\<close> or an infinity,
  the model yields \<open>None\<close>, and so does every function that uses such a result: a
  result \<open>None\<close> says that the run has left the real numbers (or, further down, that a
  \<open>TypeError\<close> was thrown), and nothing more is said about it.
\<close>

text \<open>\<open>x ** n\<close>: \<open>0 ** n\<close> is an infinity for negative \<open>n\<close>, a negative base with a
  fractional exponent is \<open>NaN\<close>.\<close>

definition js_pow :: "real \<Rightarrow> real \<Rightarrow> real option" where
  "js_pow x n =
     (if 0 < x then Some (x powr n)
      else if x = 0 then (if 0 < n then Some 0 else if n = 0 then Some 1 else None)
      else if n = of_int \<lfloor>n\<rfloor> then Some (x powi \<lfloor>n\<rfloor>)
      else None)"

text \<open>\<open>Math.log\<close>: minus infinity at 0, \<open>NaN\<close> below.\<close>

definition js_log :: "real \<Rightarrow> real option" where
  "js_log x = (if 0 < x then Some (ln x) else None)"

text \<open>\<open>Math.max(...xs)\<close>: minus infinity for no argument.\<close>

fun js_max :: "real list \<Rightarrow> real option" where
  "js_max [] = None"
| "js_max (x # xs) = Some (fold max xs x)"

text \<open>\<open>xs[i]\<close>, which is \<open>undefined\<close> out of range.\<close>

definition at_idx :: "'a list \<Rightarrow> nat \<Rightarrow> 'a option" where
  "at_idx xs i = (if i < length xs then Some (xs ! i) else None)"

section \<open>Autograd engine\<close>

text \<open>
  A \<open>Value\<close> is an object with identity: the same node may be a child of several nodes,
  or twice of one. The store is the list of all nodes allocated so far, and a reference
  is an index into it; \<open>new Value(...)\<close> appends a node.
\<close>

type_synonym ref = nat

record Value =
  data :: real
  grad :: real
  children :: "ref list"
  localGrads :: "real list"

type_synonym heap = "Value list"

definition new_Value :: "real \<Rightarrow> ref list \<Rightarrow> real list \<Rightarrow> heap \<Rightarrow> ref \<times> heap" where
  "new_Value d cs ls h =
     (length h, h @ [\<lparr>data = d, grad = 0, children = cs, localGrads = ls\<rparr>])"

text \<open>An operand of type \<open>Value | number\<close>.\<close>

datatype operand = Ref ref | Num real

text \<open>\<open>other instanceof Value ? other : new Value(other)\<close>\<close>

definition as_Value :: "operand \<Rightarrow> heap \<Rightarrow> ref \<times> heap" where
  "as_Value other h = (case other of Ref r \<Rightarrow> (r, h) | Num x \<Rightarrow> new_Value x [] [] h)"

definition add_Value :: "ref \<Rightarrow> operand \<Rightarrow> heap \<Rightarrow> ref \<times> heap" where
  "add_Value this other h =
     (let (ot, h1) = as_Value other h
      in new_Value (data (h1 ! this) + data (h1 ! ot)) [this, ot] [1, 1] h1)"

definition mul_Value :: "ref \<Rightarrow> operand \<Rightarrow> heap \<Rightarrow> ref \<times> heap" where
  "mul_Value this other h =
     (let (ot, h1) = as_Value other h
      in new_Value (data (h1 ! this) * data (h1 ! ot)) [this, ot]
           [data (h1 ! ot), data (h1 ! this)] h1)"

definition pow_Value :: "ref \<Rightarrow> real \<Rightarrow> heap \<Rightarrow> (ref \<times> heap) option" where
  "pow_Value this n h =
     do {
       p \<leftarrow> js_pow (data (h ! this)) n;
       q \<leftarrow> js_pow (data (h ! this)) (n - 1);
       Some (new_Value p [this] [n * q] h)
     }"

definition log_Value :: "ref \<Rightarrow> heap \<Rightarrow> (ref \<times> heap) option" where
  "log_Value this h =
     do {
       l \<leftarrow> js_log (data (h ! this));
       Some (new_Value l [this] [1 / data (h ! this)] h)
     }"

definition exp_Value :: "ref \<Rightarrow> heap \<Rightarrow> ref \<times> heap" where
  "exp_Value this h = (let e = exp (data (h ! this)) in new_Value e [this] [e] h)"

definition relu :: "ref \<Rightarrow> heap \<Rightarrow> ref \<times> heap" where
  "relu this h =
     new_Value (max 0 (data (h ! this))) [this] [if data (h ! this) > 0 then 1 else 0] h"

definition neg :: "ref \<Rightarrow> heap \<Rightarrow> ref \<times> heap" where
  "neg this h = mul_Value this (Num (- 1)) h"

definition sub :: "ref \<Rightarrow> operand \<Rightarrow> heap \<Rightarrow> ref \<times> heap" where
  "sub this other h =
     (let (ot, h1) = as_Value other h; (m, h2) = neg ot h1
      in add_Value this (Ref m) h2)"

definition div_Value :: "ref \<Rightarrow> operand \<Rightarrow> heap \<Rightarrow> (ref \<times> heap) option" where
  "div_Value this other h =
     (let (ot, h1) = as_Value other h
      in do {
        (p, h2) \<leftarrow> pow_Value ot (- 1) h1;
        Some (mul_Value this (Ref p) h2)
      })"

subsection \<open>Backpropagation\<close>

text \<open>
  \<open>buildTopo\<close> is a recursive depth-first search. The model counts the depth of the
  recursion down from a bound and returns \<open>None\<close> when the bound is used up;
  \<open>backward\<close> starts it with the number of nodes in the store, which is enough on every
  store the operations above can build (see \<open>buildTopo_enough\<close>).
\<close>

fun fold_opt :: "('a \<Rightarrow> 's \<Rightarrow> 's option) \<Rightarrow> 'a list \<Rightarrow> 's \<Rightarrow> 's option" where
  "fold_opt f [] s = Some s"
| "fold_opt f (x # xs) s = (case f x s of None \<Rightarrow> None | Some s' \<Rightarrow> fold_opt f xs s')"

fun buildTopo :: "nat \<Rightarrow> heap \<Rightarrow> ref \<Rightarrow> ref set \<times> ref list \<Rightarrow> (ref set \<times> ref list) option" where
  "buildTopo 0 h v s = None"
| "buildTopo (Suc k) h v (visited, topo) =
     (if v \<in> visited then Some (visited, topo)
      else case fold_opt (\<lambda>child. buildTopo k h child) (children (h ! v))
                  (insert v visited, topo) of
             None \<Rightarrow> None
           | Some (visited', topo') \<Rightarrow> Some (visited', topo' @ [v]))"

text \<open>The inner loop of \<open>backward\<close>:
  \<open>v.children[j].grad += v.localGrads[j] * v.grad\<close> for each \<open>j\<close>, reading \<open>v.grad\<close>
  anew each time. It runs over the children paired with their local gradients; every node
  that the operations build has as many of the one as of the other.\<close>

fun accumulate :: "ref \<Rightarrow> (ref \<times> real) list \<Rightarrow> heap \<Rightarrow> heap" where
  "accumulate v [] h = h"
| "accumulate v ((c, l) # cls) h =
     accumulate v cls (h[c := (h ! c)\<lparr>grad := grad (h ! c) + l * grad (h ! v)\<rparr>])"

definition propagate :: "ref \<Rightarrow> heap \<Rightarrow> heap" where
  "propagate v h = accumulate v (zip (children (h ! v)) (localGrads (h ! v))) h"

definition backward :: "ref \<Rightarrow> heap \<Rightarrow> heap option" where
  "backward this h =
     do {
       (visited, topo) \<leftarrow> buildTopo (length h) h this ({}, []);
       let h1 = h[this := (h ! this)\<lparr>grad := 1\<rparr>];
       Some (fold propagate (rev topo) h1)
     }"

text \<open>
  The invariant of every store built by the operations (\<open>wf_heap_ops\<close>,
  \<open>wf_heap_partial_ops\<close>): a node's children were allocated before the node, so the graph
  is acyclic, and there is one local gradient per child.
\<close>

definition wf_heap :: "heap \<Rightarrow> bool" where
  "wf_heap h \<longleftrightarrow>
     (\<forall>v < length h. (\<forall>c \<in> set (children (h ! v)). c < v) \<and>
        length (localGrads (h ! v)) = length (children (h ! v)))"

text \<open>
  The nodes of the graph of \<open>rt\<close>: \<open>rt\<close>, its children, their children, and so on. And
  what a parent \<open>v\<close> passes to a node \<open>u\<close> per unit of its own \<open>grad\<close>: the sum of
  \<open>v.localGrads[j]\<close> over the positions \<open>j\<close> with \<open>v.children[j] = u\<close>, which is 0 when
  \<open>u\<close> is not a child of \<open>v\<close>.
\<close>

inductive reachable :: "heap \<Rightarrow> ref \<Rightarrow> ref \<Rightarrow> bool" for h :: heap and rt :: ref where
  reachable_root: "reachable h rt rt"
| reachable_child: "reachable h rt v \<Longrightarrow> c \<in> set (children (h ! v)) \<Longrightarrow> reachable h rt c"

code_pred reachable .

definition contribution :: "heap \<Rightarrow> ref \<Rightarrow> ref \<Rightarrow> real" where
  "contribution h v u =
     (\<Sum>(c, l)\<leftarrow>zip (children (h ! v)) (localGrads (h ! v)). if c = u then l else 0)"

text \<open>
  Two properties of a list of nodes, for the order in which \<open>backward\<close> visits them: in
  \<open>topo\<close> the children of a node stand before the node, and so in the reversed list no node
  is a child of itself or of a node that stands after it.
\<close>

definition children_first :: "heap \<Rightarrow> ref list \<Rightarrow> bool" where
  "children_first h topo \<longleftrightarrow>
     (\<forall>i < length topo. set (children (h ! (topo ! i))) \<subseteq> set (take i topo))"

fun parents_first :: "heap \<Rightarrow> ref list \<Rightarrow> bool" where
  "parents_first h [] = True"
| "parents_first h (x # rest) =
     ((\<forall>v \<in> set (x # rest). x \<notin> set (children (h ! v))) \<and> parents_first h rest)"

section \<open>Arrays of nodes\<close>

text \<open>
  \<open>Array.map\<close> and \<open>Array.reduce\<close> with a callback that allocates nodes and may leave
  the model; a callback that uses the index gets the elements paired with their indices.
\<close>

fun map_heap :: "('a \<Rightarrow> heap \<Rightarrow> ('b \<times> heap) option) \<Rightarrow> 'a list \<Rightarrow> heap \<Rightarrow> ('b list \<times> heap) option" where
  "map_heap f [] h = Some ([], h)"
| "map_heap f (x # xs) h =
     (case f x h of None \<Rightarrow> None
      | Some (y, h1) \<Rightarrow>
          (case map_heap f xs h1 of None \<Rightarrow> None
           | Some (ys, h2) \<Rightarrow> Some (y # ys, h2)))"

fun reduce_heap :: "('b \<Rightarrow> 'a \<Rightarrow> heap \<Rightarrow> ('b \<times> heap) option) \<Rightarrow> 'a list \<Rightarrow> 'b \<Rightarrow> heap \<Rightarrow> ('b \<times> heap) option" where
  "reduce_heap f [] acc h = Some (acc, h)"
| "reduce_heap f (x # xs) acc h =
     (case f acc x h of None \<Rightarrow> None
      | Some (acc1, h1) \<Rightarrow> reduce_heap f xs acc1 h1)"

definition indexed :: "'a list \<Rightarrow> ('a \<times> nat) list" where
  "indexed xs = zip xs [0..<length xs]"

text \<open>\<open>xs.slice(a, b)\<close> for \<open>0 \<le> a \<le> b\<close>\<close>

definition slice :: "'a list \<Rightarrow> nat \<Rightarrow> nat \<Rightarrow> 'a list" where
  "slice xs a b = take (b - a) (drop a xs)"

section \<open>Model hyperparameters\<close>

definition N_LAYER :: nat where "N_LAYER = 1"
definition N_EMBD :: nat where "N_EMBD = 16"
definition BLOCK_SIZE :: nat where "BLOCK_SIZE = 16"
definition N_HEAD :: nat where "N_HEAD = 4"

text \<open>\<open>N_EMBD / N_HEAD\<close>, which is the whole number 4.\<close>

definition HEAD_DIM :: nat where "HEAD_DIM = N_EMBD div N_HEAD"

section \<open>Parameters\<close>

text \<open>
  \<open>stateDict\<close> is a dictionary from names to matrices of nodes. The names are the three
  fixed ones and, for the name \<open>layer${i}.attn_wq\<close>, the key \<open>attn_wq i\<close>, and so on.
  The matrices are filled with random numbers at start-up; here the dictionary is a
  parameter of the forward pass. Reading a missing key gives \<open>undefined\<close>.
\<close>

type_synonym matrix = "ref list list"

datatype key = wte | wpe | lm_head
  | attn_wq nat | attn_wk nat | attn_wv nat | attn_wo nat | mlp_fc1 nat | mlp_fc2 nat

type_synonym stateDict = "key \<Rightarrow> matrix option"

section \<open>Model building blocks\<close>

text \<open>The callback of the dot products, \<open>sum.add(wi.mul(x[i]))\<close>, with \<open>acc\<close> for
  \<open>sum\<close>. Where \<open>x[i]\<close> is \<open>undefined\<close> the product is \<open>NaN\<close>.\<close>

text \<open>\<open>linear\<close> of the program: each row of \<open>w\<close> dotted with \<open>x\<close>.\<close>

definition dot_step :: "ref list \<Rightarrow> ref \<Rightarrow> ref \<times> nat \<Rightarrow> heap \<Rightarrow> (ref \<times> heap) option" where
  "dot_step x acc wi_i h =
     (case wi_i of (wi, i) \<Rightarrow>
        do {
          xi \<leftarrow> at_idx x i;
          let (p, h1) = mul_Value wi (Ref xi) h;
          Some (add_Value acc (Ref p) h1)
        })"

definition linear_layer :: "ref list \<Rightarrow> matrix \<Rightarrow> heap \<Rightarrow> (ref list \<times> heap) option" where
  "linear_layer x w h =
     map_heap (\<lambda>wRow h.
         let (zero, h0) = new_Value 0 [] [] h
         in reduce_heap (dot_step x) (indexed wRow) zero h0)
       w h"

definition softmax :: "ref list \<Rightarrow> heap \<Rightarrow> (ref list \<times> heap) option" where
  "softmax logits h =
     (let maxVal = js_max (map (\<lambda>v. data (h ! v)) logits)
      in do {
        (exps, h1) \<leftarrow> map_heap (\<lambda>v h. do {
                          m \<leftarrow> maxVal;
                          let (s, h') = sub v (Num m) h;
                          Some (exp_Value s h')
                        }) logits h;
        let (zero, h2) = new_Value 0 [] [] h1;
        (total, h3) \<leftarrow> reduce_heap (\<lambda>sum e h. Some (add_Value sum (Ref e) h)) exps zero h2;
        map_heap (\<lambda>e h. div_Value e (Ref total) h) exps h3
      })"

definition rmsnorm :: "ref list \<Rightarrow> heap \<Rightarrow> (ref list \<times> heap) option" where
  "rmsnorm x h =
     (let (zero, h0) = new_Value 0 [] [] h
      in do {
        (ss, h1) \<leftarrow> reduce_heap (\<lambda>sum xi h.
                        let (sq, h') = mul_Value xi (Ref xi) h
                        in Some (add_Value sum (Ref sq) h')) x zero h0;
        (ms, h2) \<leftarrow> div_Value ss (Num (real (length x))) h1;
        let (e, h3) = add_Value ms (Num (1 / 100000)) h2;
        (scale, h4) \<leftarrow> pow_Value e (- (1 / 2)) h3;
        map_heap (\<lambda>xi h. Some (mul_Value xi (Ref scale) h)) x h4
      })"

section \<open>GPT forward pass\<close>

text \<open>
  A cache holds, per layer, the vectors of the positions processed so far. \<open>gpt\<close>
  mutates both caches; the model returns them with the logits and the store.
\<close>

type_synonym cache = "ref list list list"

text \<open>The residual connection \<open>x.map((a, i) => a.add(r[i]))\<close>.\<close>

definition add_residual :: "ref list \<Rightarrow> ref list \<Rightarrow> heap \<Rightarrow> (ref list \<times> heap) option" where
  "add_residual x r h =
     map_heap (\<lambda>(a, i) h. do { ri \<leftarrow> at_idx r i; Some (add_Value a (Ref ri) h) })
       (indexed x) h"

text \<open>The body of the loop over the heads, for head number \<open>head\<close> (\<open>h\<close> in the
  program): the attention of the query slice over the cached key slices, and \<open>HEAD_DIM\<close>
  pushes onto \<open>xAttn\<close>.\<close>

definition attn_head :: "ref list \<Rightarrow> ref list list \<Rightarrow> ref list list \<Rightarrow> nat \<Rightarrow> ref list \<times> heap \<Rightarrow> (ref list \<times> heap) option" where
  "attn_head q keys_li values_li head st =
     (case st of (xAttn, h) \<Rightarrow>
      let hs = head * HEAD_DIM;
          qH = slice q hs (hs + HEAD_DIM);
          kH = map (\<lambda>ki. slice ki hs (hs + HEAD_DIM)) keys_li;
          vH = map (\<lambda>vi. slice vi hs (hs + HEAD_DIM)) values_li
      in do {
        (attnLogits, h1) \<leftarrow> map_heap (\<lambda>kt h.
            let (zero, h0) = new_Value 0 [] [] h
            in do {
              (d, h') \<leftarrow> reduce_heap (dot_step kt) (indexed qH) zero h0;
              div_Value d (Num (sqrt (real HEAD_DIM))) h'
            }) kH h;
        (attnWeights, h2) \<leftarrow> softmax attnLogits h1;
        fold_opt (\<lambda>j (xAttn, h).
            let (zero, h0) = new_Value 0 [] [] h
            in do {
              (s, h') \<leftarrow> reduce_heap (\<lambda>sum (w, t) h. do {
                             vt \<leftarrow> at_idx vH t;
                             vtj \<leftarrow> at_idx vt j;
                             let (p, h1) = mul_Value w (Ref vtj) h;
                             Some (add_Value sum (Ref p) h1)
                           }) (indexed attnWeights) zero h0;
              Some (xAttn @ [s], h')
            }) [0..<HEAD_DIM] (xAttn, h2)
      })"

text \<open>The body of the loop over the layers.\<close>

definition gpt_layer :: "stateDict \<Rightarrow> nat \<Rightarrow> ref list \<times> heap \<times> cache \<times> cache \<Rightarrow> (ref list \<times> heap \<times> cache \<times> cache) option" where
  "gpt_layer sd li st =
     (case st of (x, h, keys, values) \<Rightarrow>
      do {
        let xResidual1 = x;
        (x1, h1) \<leftarrow> rmsnorm x h;
        wq \<leftarrow> sd (attn_wq li);
        (q, h2) \<leftarrow> linear_layer x1 wq h1;
        wk \<leftarrow> sd (attn_wk li);
        (k, h3) \<leftarrow> linear_layer x1 wk h2;
        wv \<leftarrow> sd (attn_wv li);
        (v, h4) \<leftarrow> linear_layer x1 wv h3;
        keys_li \<leftarrow> at_idx keys li;
        let keys1 = keys[li := keys_li @ [k]];
        values_li \<leftarrow> at_idx values li;
        let values1 = values[li := values_li @ [v]];
        (xAttn, h5) \<leftarrow> fold_opt (attn_head q (keys1 ! li) (values1 ! li)) [0..<N_HEAD] ([], h4);
        wo \<leftarrow> sd (attn_wo li);
        (x2, h6) \<leftarrow> linear_layer xAttn wo h5;
        (x3, h7) \<leftarrow> add_residual x2 xResidual1 h6;
        let xResidual2 = x3;
        (x4, h8) \<leftarrow> rmsnorm x3 h7;
        fc1 \<leftarrow> sd (mlp_fc1 li);
        (x5, h9) \<leftarrow> linear_layer x4 fc1 h8;
        (x6, h10) \<leftarrow> map_heap (\<lambda>xi h. Some (relu xi h)) x5 h9;
        fc2 \<leftarrow> sd (mlp_fc2 li);
        (x7, h11) \<leftarrow> linear_layer x6 fc2 h10;
        (x8, h12) \<leftarrow> add_residual x7 xResidual2 h11;
        Some (x8, h12, keys1, values1)
      })"

text \<open>\<open>a[i]\<close> for an index that is the result of \<open>indexOf\<close>, which may be \<open>-1\<close>.\<close>

definition at_int :: "'a list \<Rightarrow> int \<Rightarrow> 'a option" where
  "at_int xs i = (if 0 \<le> i \<and> nat i < length xs then Some (xs ! nat i) else None)"

definition gpt :: "stateDict \<Rightarrow> int \<Rightarrow> nat \<Rightarrow> cache \<Rightarrow> cache \<Rightarrow> heap \<Rightarrow> (ref list \<times> heap \<times> cache \<times> cache) option" where
  "gpt sd tokenId posId keys values h =
     do {
       wte_m \<leftarrow> sd wte;
       tokEmb \<leftarrow> at_int wte_m tokenId;
       wpe_m \<leftarrow> sd wpe;
       (x, h1) \<leftarrow> map_heap (\<lambda>(t, i) h. do {
                       posEmb \<leftarrow> at_idx wpe_m posId;
                       p \<leftarrow> at_idx posEmb i;
                       Some (add_Value t (Ref p) h)
                     }) (indexed tokEmb) h;
       (x1, h2) \<leftarrow> rmsnorm x h1;
       (x2, h3, keys1, values1) \<leftarrow> fold_opt (gpt_layer sd) [0..<N_LAYER] (x1, h2, keys, values);
       lm \<leftarrow> sd lm_head;
       (logits, h4) \<leftarrow> linear_layer x2 lm h3;
       Some (logits, h4, keys1, values1)
     }"

text \<open>
  Both loops of the program, over a training document and over an inference sample,
  start from fresh caches and call \<open>gpt(token, pos, kvKeys, kvValues)\<close> for
  \<open>pos = 0, 1, ...\<close>. \<open>forward_positions\<close> is that sequence of calls alone, without what
  the loops do with the logits: it returns, for each position, the logits and the store
  and caches after the call, and ends at the first call that does not return.
\<close>

definition fresh_cache :: cache where
  "fresh_cache = replicate N_LAYER []"

fun forward_positions :: "stateDict \<Rightarrow> int list \<Rightarrow> nat \<Rightarrow> heap \<times> cache \<times> cache \<Rightarrow> (ref list \<times> heap \<times> cache \<times> cache) list" where
  "forward_positions sd [] pos st = []"
| "forward_positions sd (tok # toks) pos (h, keys, values) =
     (case gpt sd tok pos keys values h of
        None \<Rightarrow> []
      | Some (logits, h', keys', values') \<Rightarrow>
          (logits, h', keys', values') # forward_positions sd toks (Suc pos) (h', keys', values'))"

section \<open>Tokenizer\<close>

text \<open>
  \<open>uchars\<close> is the sorted list of the distinct characters of the documents, for documents
  given as lists of characters. A character is what spreading a string yields, see
  \<open>spread\<close> and \<open>corpus\<close> below.
\<close>

definition uchars :: "'a::linorder list list \<Rightarrow> 'a list" where
  "uchars docs = sort (remdups (concat docs))"

definition BOS :: "'a::linorder list list \<Rightarrow> nat" where
  "BOS docs = length (uchars docs)"

definition vocabSize :: "'a::linorder list list \<Rightarrow> nat" where
  "vocabSize docs = length (uchars docs) + 1"

fun indexOf :: "'a list \<Rightarrow> 'a \<Rightarrow> int" where
  "indexOf [] ch = - 1"
| "indexOf (c # cs) ch = (if c = ch then 0 else let i = indexOf cs ch in if i < 0 then - 1 else i + 1)"

text \<open>
  A string of the program is the list of its UTF-16 code units, and strings are compared as
  \<open>sort()\<close> and \<open>indexOf\<close> compare them: code unit by code unit. Spreading a string,
  \<open>[...s]\<close>, iterates it by code points: a high surrogate (\<open>0xD800\<close> to \<open>0xDBFF\<close>) followed
  by a low surrogate (\<open>0xDC00\<close> to \<open>0xDFFF\<close>) is one character of two code units, and every
  other code unit is a character by itself. \<open>s.split("")\<close> gives one string for each code
  unit.
\<close>

type_synonym str = "nat list"

definition high_surrogate :: "nat \<Rightarrow> bool" where
  "high_surrogate u \<longleftrightarrow> 55296 \<le> u \<and> u \<le> 56319"

definition low_surrogate :: "nat \<Rightarrow> bool" where
  "low_surrogate u \<longleftrightarrow> 56320 \<le> u \<and> u \<le> 57343"

fun spread :: "str \<Rightarrow> str list" where
  "spread [] = []"
| "spread [u] = [[u]]"
| "spread (u # v # s) =
     (if high_surrogate u \<and> low_surrogate v then [u, v] # spread s else [u] # spread (v # s))"

definition split_units :: "str \<Rightarrow> str list" where
  "split_units s = map (\<lambda>u. [u]) s"

text \<open>\<open>[...docs.join("")]\<close>: the characters of which the program makes \<open>uchars\<close>, and with
  it \<open>BOS\<close> and \<open>vocabSize\<close>.\<close>

definition corpus :: "str list \<Rightarrow> str list list" where
  "corpus docs = [spread (concat docs)]"

text \<open>\<open>[BOS, ...doc.split("").map((ch) => uchars.indexOf(ch)), BOS]\<close>: one id per code
  unit of the document, which is \<open>-1\<close> for a code unit that is no character of the corpus
  by itself, as the two halves of a surrogate pair are.\<close>

definition tokenize :: "str list \<Rightarrow> str \<Rightarrow> int list" where
  "tokenize docs doc =
     [int (BOS (corpus docs))] @ map (indexOf (uchars (corpus docs))) (split_units doc) @
     [int (BOS (corpus docs))]"

section \<open>Training loop\<close>

definition LEARNING_RATE :: real where "LEARNING_RATE = 1 / 100"
definition BETA1 :: real where "BETA1 = 85 / 100"
definition BETA2 :: real where "BETA2 = 99 / 100"
definition EPS :: real where "EPS = 1 / 10 ^ 8"
definition NUM_STEPS :: nat where "NUM_STEPS = 1000"

text \<open>The body of the loop over the positions of a document: the forward pass, and the
  push of \<open>probs[tokens[pos + 1]].log().neg()\<close> onto \<open>losses\<close>.\<close>

definition position_loss :: "stateDict \<Rightarrow> int list \<Rightarrow> nat \<Rightarrow> heap \<times> cache \<times> cache \<times> ref list \<Rightarrow> (heap \<times> cache \<times> cache \<times> ref list) option" where
  "position_loss sd tokens pos st =
     (case st of (h, kvKeys, kvValues, losses) \<Rightarrow>
      do {
        tok \<leftarrow> at_idx tokens pos;
        (logits, h1, kvKeys1, kvValues1) \<leftarrow> gpt sd tok pos kvKeys kvValues h;
        (probs, h2) \<leftarrow> softmax logits h1;
        target \<leftarrow> at_idx tokens (pos + 1);
        p \<leftarrow> at_int probs target;
        (l, h3) \<leftarrow> log_Value p h2;
        let (nl, h4) = neg l h3;
        Some (h4, kvKeys1, kvValues1, losses @ [nl])
      })"

text \<open>The forward part of a training step, from the tokens to the loss node: it returns
  the loss node, the per-position losses, the store and the caches.\<close>

definition forward_loss :: "stateDict \<Rightarrow> int list \<Rightarrow> heap \<Rightarrow> (ref \<times> ref list \<times> heap \<times> cache \<times> cache) option" where
  "forward_loss sd tokens h =
     (let n = min (int BLOCK_SIZE) (int (length tokens) - 1)
      in do {
        (h1, kvKeys, kvValues, losses) \<leftarrow>
           fold_opt (position_loss sd tokens) [0..<nat n] (h, fresh_cache, fresh_cache, []);
        let (zero, h2) = new_Value 0 [] [] h1;
        (total, h3) \<leftarrow> reduce_heap (\<lambda>sum l h. Some (add_Value sum (Ref l) h)) losses zero h2;
        (loss, h4) \<leftarrow> div_Value total (Num (real_of_int n)) h3;
        Some (loss, losses, h4, kvKeys, kvValues)
      })"

subsection \<open>Adam\<close>

text \<open>\<open>x / y\<close> and \<open>Math.sqrt\<close>, which leave the real numbers at a zero divisor and at
  a negative argument.\<close>

definition js_div :: "real \<Rightarrow> real \<Rightarrow> real option" where
  "js_div x y = (if y = 0 then None else Some (x / y))"

definition js_sqrt :: "real \<Rightarrow> real option" where
  "js_sqrt x = (if x < 0 then None else Some (sqrt x))"

definition lrT :: "nat \<Rightarrow> real" where
  "lrT step = LEARNING_RATE * (1 - real step / real NUM_STEPS)"

text \<open>
  The body of the loop over the parameters, for parameter \<open>p\<close> at index \<open>i\<close> of the
  flattened list; \<open>m\<close> and \<open>v\<close> are the moment buffers, which are as long as that list.
  The exponents \<open>2\<close> and \<open>step + 1\<close> are natural numbers, where \<open>**\<close> is the power (see
  \<open>js_pow_nat\<close>).
\<close>

definition adam_update :: "nat \<Rightarrow> ref \<times> nat \<Rightarrow> heap \<times> real list \<times> real list \<Rightarrow> (heap \<times> real list \<times> real list) option" where
  "adam_update step p_i st =
     (case (p_i, st) of ((p, i), (h, m, v)) \<Rightarrow>
      let mi = BETA1 * (m ! i) + (1 - BETA1) * grad (h ! p);
          vi = BETA2 * (v ! i) + (1 - BETA2) * grad (h ! p) ^ 2
      in do {
        mHat \<leftarrow> js_div mi (1 - BETA1 ^ (step + 1));
        vHat \<leftarrow> js_div vi (1 - BETA2 ^ (step + 1));
        r \<leftarrow> js_sqrt vHat;
        u \<leftarrow> js_div (lrT step * mHat) (r + EPS);
        let h1 = h[p := (h ! p)\<lparr>data := data (h ! p) - u\<rparr>];
        Some (h1[p := (h1 ! p)\<lparr>grad := 0\<rparr>], m[i := mi], v[i := vi])
      })"

text \<open>One training step on the tokens of a document, and the whole loop, with
  \<open>step\<close> running from \<open>0\<close> to \<open>NUM_STEPS - 1\<close>.\<close>

definition train_step :: "stateDict \<Rightarrow> ref list \<Rightarrow> str list \<Rightarrow> nat \<Rightarrow> heap \<times> real list \<times> real list \<Rightarrow> (heap \<times> real list \<times> real list) option" where
  "train_step sd params docs step st =
     (case st of (h, m, v) \<Rightarrow>
      do {
        doc \<leftarrow> (if docs = [] then None else at_idx docs (step mod length docs));
        (loss, losses, h1, kvKeys, kvValues) \<leftarrow> forward_loss sd (tokenize docs doc) h;
        h2 \<leftarrow> backward loss h1;
        fold_opt (adam_update step) (indexed params) (h2, m, v)
      })"

definition train :: "stateDict \<Rightarrow> ref list \<Rightarrow> str list \<Rightarrow> heap \<Rightarrow> (heap \<times> real list \<times> real list) option" where
  "train sd params docs h =
     fold_opt (train_step sd params docs) [0..<NUM_STEPS]
       (h, replicate (length params) 0, replicate (length params) 0)"

section \<open>Shapes\<close>

text \<open>
  What the theorems about the forward pass assume of its inputs. \<open>valid h xs\<close>: the
  references \<open>xs\<close> are nodes of the store. \<open>sd_ok sd V\<close>: the dictionary holds, under every
  name that the program's initialisation writes, a matrix of the size it gives it there,
  for a vocabulary of size \<open>V\<close>. \<open>cache_ok c n\<close>: the cache has one list per layer, of \<open>n\<close>
  vectors of length \<open>N_EMBD\<close> each.
\<close>

definition valid :: "heap \<Rightarrow> ref list \<Rightarrow> bool" where
  "valid h xs \<longleftrightarrow> (\<forall>x \<in> set xs. x < length h)"

definition matrix_ok :: "matrix \<Rightarrow> nat \<Rightarrow> nat \<Rightarrow> bool" where
  "matrix_ok w nout nin \<longleftrightarrow> length w = nout \<and> list_all (\<lambda>row. length row = nin) w"

definition has_shape :: "stateDict \<Rightarrow> key \<Rightarrow> nat \<Rightarrow> nat \<Rightarrow> bool" where
  "has_shape sd k nout nin = (case sd k of None \<Rightarrow> False | Some w \<Rightarrow> matrix_ok w nout nin)"

definition sd_ok :: "stateDict \<Rightarrow> nat \<Rightarrow> bool" where
  "sd_ok sd V \<longleftrightarrow>
     has_shape sd wte V N_EMBD \<and> has_shape sd wpe BLOCK_SIZE N_EMBD \<and>
     has_shape sd lm_head V N_EMBD \<and>
     list_all (\<lambda>i. has_shape sd (attn_wq i) N_EMBD N_EMBD \<and>
                   has_shape sd (attn_wk i) N_EMBD N_EMBD \<and>
                   has_shape sd (attn_wv i) N_EMBD N_EMBD \<and>
                   has_shape sd (attn_wo i) N_EMBD N_EMBD \<and>
                   has_shape sd (mlp_fc1 i) (4 * N_EMBD) N_EMBD \<and>
                   has_shape sd (mlp_fc2 i) N_EMBD (4 * N_EMBD))
       [0..<N_LAYER]"

definition cache_at :: "cache \<Rightarrow> nat \<Rightarrow> nat \<Rightarrow> bool" where
  "cache_at c li n \<longleftrightarrow> length (c ! li) = n \<and> list_all (\<lambda>vec. length vec = N_EMBD) (c ! li)"

definition cache_ok :: "cache \<Rightarrow> nat \<Rightarrow> bool" where
  "cache_ok c n \<longleftrightarrow> length c = N_LAYER \<and> list_all (\<lambda>li. cache_at c li n) [0..<N_LAYER]"

text \<open>
  \<open>loss_at sd tokens h p d\<close>: the number \<open>d\<close> is the negative natural logarithm of the
  probability that the softmax of the logits gives to \<open>tokens[p + 1]\<close>, the logits being
  those of the forward pass on \<open>tokens[p]\<close> at position \<open>p\<close>, in the state that the loop
  over the positions has reached after the positions before \<open>p\<close>.
\<close>

definition loss_at :: "stateDict \<Rightarrow> int list \<Rightarrow> heap \<Rightarrow> nat \<Rightarrow> real \<Rightarrow> bool" where
  "loss_at sd tokens h p d \<longleftrightarrow>
     (\<exists>hp keys values lp logits h1 keys1 values1 probs h2.
        fold_opt (position_loss sd tokens) [0..<p] (h, fresh_cache, fresh_cache, [])
          = Some (hp, keys, values, lp) \<and>
        gpt sd (tokens ! p) p keys values hp = Some (logits, h1, keys1, values1) \<and>
        softmax logits h1 = Some (probs, h2) \<and>
        nat (tokens ! Suc p) < length probs \<and>
        d = - ln (data (h2 ! (probs ! nat (tokens ! Suc p)))))"

section \<open>Reference values and example inputs\<close>

text \<open>The value of entry \<open>i\<close> of the softmax of the numbers \<open>ds\<close>, as a formula: the
  exponential of the entry less the maximum, over the sum of these exponentials.\<close>

definition softmax_val :: "real list \<Rightarrow> nat \<Rightarrow> real" where
  "softmax_val ds i =
     exp (ds ! i - fold max (tl ds) (hd ds)) / (\<Sum>d\<leftarrow>ds. exp (d - fold max (tl ds) (hd ds)))"

text \<open>A store with the nodes of \<open>2 * 5\<close>, one with a node of negative data and its
  parent, and two stores with two logits each, the second shifted by 10.\<close>

definition ex_heap :: heap where
  "ex_heap = [\<lparr>data = 2, grad = 0, children = [], localGrads = []\<rparr>,
              \<lparr>data = 5, grad = 0, children = [], localGrads = []\<rparr>,
              \<lparr>data = 10, grad = 0, children = [0, 1], localGrads = [5, 2]\<rparr>]"

text \<open>Three leaves \<open>a = 2\<close>, \<open>b = 3\<close>, \<open>c = 5\<close>, and the store of \<open>z = a * b + a * c\<close>
  over them, in which \<open>a\<close> is a child of the two products.\<close>

definition ex_leaves :: heap where
  "ex_leaves = [\<lparr>data = 2, grad = 0, children = [], localGrads = []\<rparr>,
                \<lparr>data = 3, grad = 0, children = [], localGrads = []\<rparr>,
                \<lparr>data = 5, grad = 0, children = [], localGrads = []\<rparr>]"

definition ex_diamond :: heap where
  "ex_diamond = [\<lparr>data = 2, grad = 0, children = [], localGrads = []\<rparr>,
                 \<lparr>data = 3, grad = 0, children = [], localGrads = []\<rparr>,
                 \<lparr>data = 5, grad = 0, children = [], localGrads = []\<rparr>,
                 \<lparr>data = 6, grad = 0, children = [0, 1], localGrads = [3, 2]\<rparr>,
                 \<lparr>data = 10, grad = 0, children = [0, 2], localGrads = [5, 2]\<rparr>,
                 \<lparr>data = 16, grad = 0, children = [3, 4], localGrads = [1, 1]\<rparr>]"

definition ex_neg :: heap where
  "ex_neg = [\<lparr>data = - 3, grad = 7, children = [], localGrads = []\<rparr>,
             \<lparr>data = 0, grad = 0, children = [0], localGrads = [1]\<rparr>]"

definition ex_logits :: heap where
  "ex_logits = [\<lparr>data = 1, grad = 0, children = [], localGrads = []\<rparr>,
                \<lparr>data = 3, grad = 0, children = [], localGrads = []\<rparr>]"

definition ex_shifted :: heap where
  "ex_shifted = [\<lparr>data = 11, grad = 0, children = [], localGrads = []\<rparr>,
                 \<lparr>data = 13, grad = 0, children = [], localGrads = []\<rparr>]"

definition ex_param :: heap where
  "ex_param = [\<lparr>data = 1, grad = 2, children = [], localGrads = []\<rparr>]"

text \<open>A dictionary for a vocabulary of size 3 in which every weight is the one node of
  \<open>ex_param\<close>, and the tokens of the document \<open>abab\<close> over the characters \<open>a\<close> and \<open>b\<close>.\<close>

definition ex_matrix :: "nat \<Rightarrow> nat \<Rightarrow> matrix" where
  "ex_matrix nout nin = replicate nout (replicate nin 0)"

definition ex_sd :: stateDict where
  "ex_sd k =
     (case k of
        wte \<Rightarrow> Some (ex_matrix 3 N_EMBD)
      | wpe \<Rightarrow> Some (ex_matrix BLOCK_SIZE N_EMBD)
      | lm_head \<Rightarrow> Some (ex_matrix 3 N_EMBD)
      | attn_wq i \<Rightarrow> Some (ex_matrix N_EMBD N_EMBD)
      | attn_wk i \<Rightarrow> Some (ex_matrix N_EMBD N_EMBD)
      | attn_wv i \<Rightarrow> Some (ex_matrix N_EMBD N_EMBD)
      | attn_wo i \<Rightarrow> Some (ex_matrix N_EMBD N_EMBD)
      | mlp_fc1 i \<Rightarrow> Some (ex_matrix (4 * N_EMBD) N_EMBD)
      | mlp_fc2 i \<Rightarrow> Some (ex_matrix N_EMBD (4 * N_EMBD)))"

definition ex_tokens :: "int list" where
  "ex_tokens = [2, 0, 1, 0, 1, 2]"

section \<open>The store under backpropagation\<close>

lemma accumulate_length [simp]: "length (accumulate v cls h) = length h"
  by (induction cls arbitrary: h) auto

lemma update_grad_frame:
  "data (h[c := (h ! c)\<lparr>grad := g\<rparr>] ! u) = data (h ! u) \<and>
   children (h[c := (h ! c)\<lparr>grad := g\<rparr>] ! u) = children (h ! u) \<and>
   localGrads (h[c := (h ! c)\<lparr>grad := g\<rparr>] ! u) = localGrads (h ! u)"
  by (cases "c < length h") (auto simp: nth_list_update list_update_beyond)

lemma accumulate_frame:
  "data (accumulate v cls h ! u) = data (h ! u) \<and>
   children (accumulate v cls h ! u) = children (h ! u) \<and>
   localGrads (accumulate v cls h ! u) = localGrads (h ! u)"
  by (induction cls arbitrary: h) (auto simp: update_grad_frame)

lemma accumulate_grad_other:
  "u \<notin> fst ` set cls \<Longrightarrow> grad (accumulate v cls h ! u) = grad (h ! u)"
  by (induction cls arbitrary: h) auto

lemma propagate_length [simp]: "length (propagate v h) = length h"
  by (simp add: propagate_def)

lemma propagate_frame:
  "data (propagate v h ! u) = data (h ! u) \<and>
   children (propagate v h ! u) = children (h ! u) \<and>
   localGrads (propagate v h ! u) = localGrads (h ! u)"
  by (simp add: propagate_def accumulate_frame)

lemma propagate_grad_other:
  "u \<notin> set (children (h ! v)) \<Longrightarrow> grad (propagate v h ! u) = grad (h ! u)"
  unfolding propagate_def
  by (rule accumulate_grad_other) (auto dest: set_zip_leftD)

lemma fold_propagate_length [simp]: "length (fold propagate vs h) = length h"
  by (induction vs arbitrary: h) auto

lemma fold_propagate_frame:
  "data (fold propagate vs h ! u) = data (h ! u) \<and>
   children (fold propagate vs h ! u) = children (h ! u) \<and>
   localGrads (fold propagate vs h ! u) = localGrads (h ! u)"
  by (induction vs arbitrary: h) (auto simp: propagate_frame)

lemma fold_propagate_grad_other:
  "\<forall>v \<in> set vs. u \<notin> set (children (h ! v)) \<Longrightarrow> grad (fold propagate vs h ! u) = grad (h ! u)"
proof (induction vs arbitrary: h)
  case Nil
  then show ?case by simp
next
  case (Cons v vs)
  have "\<forall>w \<in> set vs. u \<notin> set (children (propagate v h ! w))"
    using Cons.prems by (simp add: propagate_frame)
  then have "grad (fold propagate vs (propagate v h) ! u) = grad (propagate v h ! u)"
    by (rule Cons.IH)
  then show ?case using Cons.prems by (simp add: propagate_grad_other)
qed

lemma fold_opt_buildTopo:
  assumes step: "\<And>c vis topo. c \<in> set cs \<Longrightarrow>
      \<exists>vis' new. f c (vis, topo) = Some (vis', topo @ new) \<and> (\<forall>u \<in> set new. u < b)"
  shows "\<exists>vis' new. fold_opt f cs (vis, topo) = Some (vis', topo @ new) \<and> (\<forall>u \<in> set new. u < b)"
  using step
proof (induction cs arbitrary: vis topo)
  case Nil
  then show ?case by simp
next
  case (Cons c cs)
  obtain vis1 new1 where 1: "f c (vis, topo) = Some (vis1, topo @ new1)" "\<forall>u \<in> set new1. u < b"
    using Cons.prems[of c vis topo] by auto
  obtain vis2 new2 where 2: "fold_opt f cs (vis1, topo @ new1) = Some (vis2, (topo @ new1) @ new2)"
      "\<forall>u \<in> set new2. u < b"
    using Cons.IH[of vis1 "topo @ new1"] Cons.prems by auto
  show ?case using 1 2 by (intro exI[of _ vis2] exI[of _ "new1 @ new2"]) auto
qed

lemma buildTopo_enough:
  "wf_heap h \<Longrightarrow> v < length h \<Longrightarrow> v < k \<Longrightarrow>
   \<exists>vis' new. buildTopo k h v (vis, topo) = Some (vis', topo @ new) \<and> (\<forall>u \<in> set new. u \<le> v)"
proof (induction k arbitrary: v vis topo)
  case 0
  then show ?case by simp
next
  case (Suc k)
  show ?case
  proof (cases "v \<in> vis")
    case True
    then show ?thesis by simp
  next
    case False
    have ch: "\<And>c. c \<in> set (children (h ! v)) \<Longrightarrow> c < v"
      using Suc.prems by (auto simp: wf_heap_def)
    have "\<exists>vis' new. fold_opt (\<lambda>child. buildTopo k h child) (children (h ! v)) (insert v vis, topo)
            = Some (vis', topo @ new) \<and> (\<forall>u \<in> set new. u < v)"
    proof (rule fold_opt_buildTopo)
      fix c vis0 topo0 assume c: "c \<in> set (children (h ! v))"
      then have "c < v" by (rule ch)
      then have "c < length h" "c < k" using Suc.prems by auto
      from Suc.IH[OF Suc.prems(1) this, of vis0 topo0]
      show "\<exists>vis' new. buildTopo k h c (vis0, topo0) = Some (vis', topo0 @ new) \<and> (\<forall>u\<in>set new. u < v)"
        using \<open>c < v\<close> by fastforce
    qed
    then obtain vis' new where
      "fold_opt (\<lambda>child. buildTopo k h child) (children (h ! v)) (insert v vis, topo) = Some (vis', topo @ new)"
      "\<forall>u \<in> set new. u < v" by blast
    then show ?thesis using False
      by (intro exI[of _ vis'] exI[of _ "new @ [v]"]) auto
  qed
qed

lemma wf_heap_new_Value:
  assumes "wf_heap h" "\<forall>c \<in> set cs. c < length h" "length ls = length cs"
  shows "wf_heap (snd (new_Value d cs ls h))"
  using assms by (auto simp: wf_heap_def new_Value_def nth_append less_Suc_eq)

lemma buildTopo_fresh_root:
  assumes wf: "wf_heap h" and cs: "\<forall>c \<in> set cs. c < length h" and ls: "length ls = length cs"
  shows "\<exists>vis new. buildTopo (Suc (length h)) (snd (new_Value d cs ls h)) (length h) ({}, [])
            = Some (vis, new @ [length h]) \<and>
          (\<forall>v \<in> set new. \<exists>c \<in> set cs. v \<le> c)"
proof -
  define h1 where "h1 = snd (new_Value d cs ls h)"
  have wf1: "wf_heap h1" unfolding h1_def using assms by (rule wf_heap_new_Value)
  have len: "length h1 = Suc (length h)" by (simp add: h1_def new_Value_def)
  have ch: "children (h1 ! length h) = cs" by (simp add: h1_def new_Value_def)
  have "\<exists>vis' new. fold_opt (\<lambda>child. buildTopo (length h) h1 child) ds (vis, topo)
            = Some (vis', topo @ new) \<and> (\<forall>v \<in> set new. \<exists>c \<in> set ds. v \<le> c)"
    if "\<forall>c \<in> set ds. c < length h" for ds vis topo
    using that
  proof (induction ds arbitrary: vis topo)
    case Nil
    then show ?case by simp
  next
    case (Cons c ds)
    have "c < length h1" "c < length h" using Cons.prems len by auto
    from buildTopo_enough[OF wf1 this, of vis topo]
    obtain vis1 new1 where 1: "buildTopo (length h) h1 c (vis, topo) = Some (vis1, topo @ new1)"
      "\<forall>u \<in> set new1. u \<le> c" by blast
    have "\<forall>c\<in>set ds. c < length h" using Cons.prems by simp
    from Cons.IH[OF this, of vis1 "topo @ new1"]
    obtain vis2 new2 where 2:
      "fold_opt (\<lambda>child. buildTopo (length h) h1 child) ds (vis1, topo @ new1) = Some (vis2, (topo @ new1) @ new2)"
      "\<forall>v \<in> set new2. \<exists>c \<in> set ds. v \<le> c" by (auto simp del: append_assoc)
    show ?case using 1 2 by (intro exI[of _ vis2] exI[of _ "new1 @ new2"]) auto
  qed
  from this[OF cs, of "{length h}" "[]"] obtain vis new where
    "fold_opt (\<lambda>child. buildTopo (length h) h1 child) cs ({length h}, []) = Some (vis, new)"
    "\<forall>v \<in> set new. \<exists>c \<in> set cs. v \<le> c" by auto
  then show ?thesis using ch unfolding h1_def[symmetric] by (intro exI[of _ vis] exI[of _ new]) simp
qed

lemma backward_fresh_root:
  assumes wf: "wf_heap h" and cs: "\<forall>c \<in> set cs. c < length h" and ls: "length ls = length cs"
    and u: "u < length h" "\<forall>c \<in> set cs. c \<le> u"
  shows "\<exists>h2. backward (length h) (snd (new_Value d cs ls h)) = Some h2 \<and>
           grad (h2 ! u) = grad (accumulate (length h) (zip cs ls)
              ((h @ [\<lparr>data = d, grad = 1, children = cs, localGrads = ls\<rparr>])) ! u)"
proof -
  let ?h1 = "snd (new_Value d cs ls h)"
  let ?h1' = "h @ [\<lparr>data = d, grad = 1, children = cs, localGrads = ls\<rparr>]"
  have wf1: "wf_heap ?h1" using wf cs ls by (rule wf_heap_new_Value)
  have len: "length ?h1 = Suc (length h)" by (simp add: new_Value_def)
  from buildTopo_fresh_root[OF wf cs ls, of d] obtain vis new where
    topo: "buildTopo (Suc (length h)) ?h1 (length h) ({}, []) = Some (vis, new @ [length h])"
    and bound: "\<forall>v \<in> set new. \<exists>c \<in> set cs. v \<le> c" by blast
  have upd: "?h1[length h := (?h1 ! length h)\<lparr>grad := 1\<rparr>] = ?h1'"
    by (simp add: new_Value_def)
  have bw: "backward (length h) ?h1 = Some (fold propagate (rev new) (propagate (length h) ?h1'))"
    using topo upd by (simp add: backward_def len)
  have pr: "propagate (length h) ?h1' = accumulate (length h) (zip cs ls) ?h1'"
    by (simp add: propagate_def)
  have "grad (fold propagate (rev new) (propagate (length h) ?h1') ! u)
          = grad (propagate (length h) ?h1' ! u)"
  proof (rule fold_propagate_grad_other, rule ballI)
    fix v assume v: "v \<in> set (rev new)"
    then obtain c where c: "c \<in> set cs" "v \<le> c" using bound by auto
    then have vu: "v \<le> u" using u by auto
    then have vl: "v < length h" using u by simp
    have "children (propagate (length h) ?h1' ! v) = children (?h1' ! v)"
      by (simp add: propagate_frame)
    also have "\<dots> = children (h ! v)" using vl by (simp add: nth_append)
    finally have "\<forall>c' \<in> set (children (propagate (length h) ?h1' ! v)). c' < v"
      using wf vl by (simp add: wf_heap_def)
    then show "u \<notin> set (children (propagate (length h) ?h1' ! v))" using vu by auto
  qed
  then show ?thesis using bw pr by simp
qed

lemma accumulate_adds:
  assumes "v \<notin> fst ` set cls" "u < length h"
  shows "grad (accumulate v cls h ! u) =
           grad (h ! u) + (\<Sum>(c, l)\<leftarrow>cls. if c = u then l * grad (h ! v) else 0)"
  using assms
proof (induction cls arbitrary: h)
  case Nil
  then show ?case by simp
next
  case (Cons cl cls)
  obtain c l where cl: "cl = (c, l)" by (cases cl)
  let ?h = "h[c := (h ! c)\<lparr>grad := grad (h ! c) + l * grad (h ! v)\<rparr>]"
  have cv: "c \<noteq> v" "v \<notin> fst ` set cls" using Cons.prems(1) by (auto simp: cl)
  have gv: "grad (?h ! v) = grad (h ! v)" using cv(1) by simp
  have gu: "grad (?h ! u) = grad (h ! u) + (if c = u then l * grad (h ! v) else 0)"
    using Cons.prems(2) by (simp add: nth_list_update)
  have "grad (accumulate v cls ?h ! u) =
          grad (?h ! u) + (\<Sum>(c, l)\<leftarrow>cls. if c = u then l * grad (?h ! v) else 0)"
    using Cons.IH[OF cv(2), of ?h] Cons.prems(2) by simp
  then have "grad (accumulate v cls ?h ! u) =
          grad (h ! u) + (if c = u then l * grad (h ! v) else 0) +
          (\<Sum>(c, l)\<leftarrow>cls. if c = u then l * grad (h ! v) else 0)"
    unfolding gv gu .
  then show ?case by (simp add: cl)
qed

lemma propagate_adds:
  assumes "wf_heap h" "v < length h" "u < length h"
  shows "grad (propagate v h ! u) =
           grad (h ! u) + (\<Sum>(c, l)\<leftarrow>zip (children (h ! v)) (localGrads (h ! v)).
                              if c = u then l * grad (h ! v) else 0)"
proof -
  have "v \<notin> fst ` set (zip (children (h ! v)) (localGrads (h ! v)))"
  proof
    assume "v \<in> fst ` set (zip (children (h ! v)) (localGrads (h ! v)))"
    then have "v \<in> set (children (h ! v))" by (auto dest: set_zip_leftD)
    then have "v < v" using assms(1,2) unfolding wf_heap_def by blast
    then show False by simp
  qed
  then show ?thesis using assms(3) unfolding propagate_def by (rule accumulate_adds)
qed

lemma wf_heap_ops:
  assumes "wf_heap h" "this < length h" "case other of Ref r \<Rightarrow> r < length h | Num x \<Rightarrow> True"
  shows "wf_heap (snd (add_Value this other h))" "wf_heap (snd (mul_Value this other h))"
    "wf_heap (snd (exp_Value this h))" "wf_heap (snd (relu this h))"
    "wf_heap (snd (neg this h))" "wf_heap (snd (sub this other h))"
  using assms
  by (auto simp: wf_heap_def add_Value_def mul_Value_def exp_Value_def relu_def neg_def sub_def
      as_Value_def new_Value_def nth_append less_Suc_eq Let_def split: operand.splits)

lemma wf_heap_partial_ops:
  assumes "wf_heap h" "this < length h" "case other of Ref r \<Rightarrow> r < length h | Num x \<Rightarrow> True"
  shows "pow_Value this n h = Some (r, h') \<Longrightarrow> wf_heap h'"
    "log_Value this h = Some (r, h') \<Longrightarrow> wf_heap h'"
    "div_Value this other h = Some (r, h') \<Longrightarrow> wf_heap h'"
  using assms
  by (auto simp: wf_heap_def pow_Value_def log_Value_def div_Value_def mul_Value_def
      as_Value_def new_Value_def nth_append less_Suc_eq Let_def bind_eq_Some_conv
      split: operand.splits)

lemma wf_ex_heap: "wf_heap ex_heap"
  by (simp add: wf_heap_def ex_heap_def All_less_Suc)

section \<open>The order of backpropagation\<close>

lemma reachable_trans:
  "reachable h v w \<Longrightarrow> reachable h r v \<Longrightarrow> reachable h r w"
  by (induction rule: reachable.induct) (auto intro: reachable.intros)

lemma reachable_le:
  assumes "wf_heap h" "r < length h" "reachable h r v"
  shows "v \<le> r"
  using assms(3)
proof (induction rule: reachable.induct)
  case reachable_root
  then show ?case by simp
next
  case (reachable_child v c)
  then have "v < length h" using assms(2) by simp
  then have "c < v" using assms(1) reachable_child.hyps(2) by (auto simp: wf_heap_def)
  then show ?case using reachable_child.IH by simp
qed

lemma reachable_first:
  "reachable h r v \<Longrightarrow> v = r \<or> (\<exists>c \<in> set (children (h ! r)). reachable h c v)"
  by (induction rule: reachable.induct) (auto intro: reachable.intros)

lemma children_first_snoc:
  "children_first h (xs @ [v]) \<longleftrightarrow> children_first h xs \<and> set (children (h ! v)) \<subseteq> set xs"
  by (auto simp: children_first_def less_Suc_eq nth_append all_conj_distrib)

lemma buildTopo_spec:
  assumes wf: "wf_heap h"
  shows "v < length h \<Longrightarrow> v < k \<Longrightarrow> children_first h topo \<Longrightarrow> distinct topo \<Longrightarrow>
     set topo \<subseteq> vis \<Longrightarrow> \<forall>w \<in> vis - set topo. v < w \<Longrightarrow>
     \<exists>new. buildTopo k h v (vis, topo) = Some (vis \<union> set new, topo @ new) \<and>
        children_first h (topo @ new) \<and> distinct (topo @ new) \<and>
        (\<forall>u \<in> set new. u \<le> v \<and> reachable h v u) \<and> v \<in> set (topo @ new)"
proof (induction k arbitrary: v vis topo)
  case 0
  then show ?case by simp
next
  case (Suc k)
  show ?case
  proof (cases "v \<in> vis")
    case True
    have "v \<in> set topo"
    proof (rule ccontr)
      assume "v \<notin> set topo"
      then have "v \<in> vis - set topo" using True by simp
      then have "v < v" using Suc.prems(6) by blast
      then show False by simp
    qed
    then show ?thesis using True Suc.prems by (intro exI[of _ "[]"]) simp
  next
    case False
    have ch: "\<And>c. c \<in> set (children (h ! v)) \<Longrightarrow> c < v"
      using wf Suc.prems(1) by (auto simp: wf_heap_def)
    have loop: "\<exists>new. fold_opt (\<lambda>child. buildTopo k h child) cs (vis1, topo1)
            = Some (vis1 \<union> set new, topo1 @ new) \<and>
          children_first h (topo1 @ new) \<and> distinct (topo1 @ new) \<and>
          (\<forall>u \<in> set new. u < v \<and> (\<exists>c \<in> set cs. reachable h c u)) \<and>
          set cs \<subseteq> set (topo1 @ new)"
      if "\<forall>c \<in> set cs. c < v" "children_first h topo1" "distinct topo1" "set topo1 \<subseteq> vis1"
        "\<forall>w \<in> vis1 - set topo1. v \<le> w"
      for cs vis1 topo1
      using that
    proof (induction cs arbitrary: vis1 topo1)
      case Nil
      then show ?case by (intro exI[of _ "[]"]) simp
    next
      case (Cons c cs)
      have c: "c < v" using Cons.prems(1) by simp
      then have c2: "c < length h" "c < k" using Suc.prems(1,2) by auto
      have "\<forall>w \<in> vis1 - set topo1. c < w"
      proof
        fix w assume "w \<in> vis1 - set topo1"
        then have "v \<le> w" using Cons.prems(5) by blast
        then show "c < w" using c by simp
      qed
      from Suc.IH[OF c2 Cons.prems(2,3,4) this]
      obtain new1 where 1: "buildTopo k h c (vis1, topo1) = Some (vis1 \<union> set new1, topo1 @ new1)"
        "children_first h (topo1 @ new1)" "distinct (topo1 @ new1)"
        "\<forall>u \<in> set new1. u \<le> c \<and> reachable h c u" "c \<in> set (topo1 @ new1)"
        by blast
      have a: "\<forall>c \<in> set cs. c < v" using Cons.prems(1) by simp
      have b: "set (topo1 @ new1) \<subseteq> vis1 \<union> set new1" using Cons.prems(4) by auto
      have d: "\<forall>w \<in> (vis1 \<union> set new1) - set (topo1 @ new1). v \<le> w"
        using Cons.prems(5) by (simp del: Diff_iff) blast
      from Cons.IH[OF a 1(2) 1(3) b d]
      obtain new2 where 2:
        "fold_opt (\<lambda>child. buildTopo k h child) cs (vis1 \<union> set new1, topo1 @ new1)
           = Some ((vis1 \<union> set new1) \<union> set new2, (topo1 @ new1) @ new2)"
        "children_first h ((topo1 @ new1) @ new2)" "distinct ((topo1 @ new1) @ new2)"
        "\<forall>u \<in> set new2. u < v \<and> (\<exists>c \<in> set cs. reachable h c u)"
        "set cs \<subseteq> set ((topo1 @ new1) @ new2)"
        by blast
      have e: "\<forall>u \<in> set (new1 @ new2). u < v \<and> (\<exists>c' \<in> set (c # cs). reachable h c' u)"
        using 1(4) 2(4) c by fastforce
      have f: "set (c # cs) \<subseteq> set (topo1 @ new1 @ new2)" using 1(5) 2(5) by auto
      show ?case
        using 1(1) 2(1,2,3) e f
        by (intro exI[of _ "new1 @ new2"]) (simp add: Un_assoc)
    qed
    have "\<forall>w \<in> insert v vis - set topo. v \<le> w"
      using Suc.prems(6) by (blast intro: less_imp_le order_refl)
    from loop[OF _ Suc.prems(3,4) _ this, of "children (h ! v)"] ch Suc.prems(5)
    obtain new where n:
      "fold_opt (\<lambda>child. buildTopo k h child) (children (h ! v)) (insert v vis, topo)
         = Some (insert v vis \<union> set new, topo @ new)"
      "children_first h (topo @ new)" "distinct (topo @ new)"
      "\<forall>u \<in> set new. u < v \<and> (\<exists>c \<in> set (children (h ! v)). reachable h c u)"
      "set (children (h ! v)) \<subseteq> set (topo @ new)"
      by blast
    have vt: "v \<notin> set topo" using False Suc.prems(5) by auto
    have vn: "v \<notin> set new" using n(4) by auto
    have r: "\<forall>u \<in> set (new @ [v]). u \<le> v \<and> reachable h v u"
    proof
      fix u assume "u \<in> set (new @ [v])"
      then consider "u = v" | "u \<in> set new" by auto
      then show "u \<le> v \<and> reachable h v u"
      proof cases
        case 1
        then show ?thesis by (simp add: reachable_root)
      next
        case 2
        then obtain c where "u < v" "c \<in> set (children (h ! v))" "reachable h c u"
          using n(4) by blast
        then show ?thesis
          using reachable_trans[of h c u v] reachable_child[OF reachable_root, of c h v] by simp
      qed
    qed
    have cf: "children_first h ((topo @ new) @ [v])"
      using n(2,5) by (subst children_first_snoc) simp
    have bt: "buildTopo (Suc k) h v (vis, topo) = Some (vis \<union> set (new @ [v]), topo @ new @ [v])"
      using False n(1) by simp
    show ?thesis
      using bt cf n(3) vt vn r by (intro exI[of _ "new @ [v]"]) simp
  qed
qed

lemma children_first_parents_first:
  "children_first h topo \<Longrightarrow> distinct topo \<Longrightarrow> parents_first h (rev topo)"
proof (induction topo rule: rev_induct)
  case Nil
  then show ?case by simp
next
  case (snoc v xs)
  have cf: "children_first h xs" "set (children (h ! v)) \<subseteq> set xs"
    using snoc.prems(1) by (simp_all add: children_first_snoc)
  have d: "distinct xs" "v \<notin> set xs" using snoc.prems(2) by simp_all
  have "v \<notin> set (children (h ! w))" if "w \<in> set xs" for w
  proof -
    from that obtain i where i: "i < length xs" "xs ! i = w" by (auto simp: in_set_conv_nth)
    then have "set (children (h ! w)) \<subseteq> set (take i xs)"
      using cf(1) by (auto simp: children_first_def)
    then have "set (children (h ! w)) \<subseteq> set xs" using set_take_subset by fast
    then show ?thesis using d(2) by auto
  qed
  moreover have "v \<notin> set (children (h ! v))" using cf(2) d(2) by auto
  ultimately show ?case using snoc.IH[OF cf(1) d(1)] by simp
qed

lemma parents_first_cong:
  "\<forall>v. children (h' ! v) = children (h ! v) \<Longrightarrow> parents_first h' vs = parents_first h vs"
  by (induction vs) simp_all

lemma contribution_cong:
  "children (h' ! v) = children (h ! v) \<Longrightarrow> localGrads (h' ! v) = localGrads (h ! v) \<Longrightarrow>
   contribution h' v u = contribution h v u"
  by (simp add: contribution_def)

lemma sum_list_if_mult:
  "(\<Sum>(c, l)\<leftarrow>cls. if c = u then l * (g::real) else 0) = (\<Sum>(c, l)\<leftarrow>cls. if c = u then l else 0) * g"
  by (induction cls) (auto simp: algebra_simps)

lemma contribution_none:
  "u \<notin> set (children (h ! v)) \<Longrightarrow> contribution h v u = 0"
proof -
  have "(\<Sum>(c, l)\<leftarrow>cls. if c = u then l else 0) = (0::real)" if "u \<notin> fst ` set cls" for cls
    using that by (induction cls) auto
  moreover assume "u \<notin> set (children (h ! v))"
  then have "u \<notin> fst ` set (zip (children (h ! v)) (localGrads (h ! v)))"
    by (auto dest: set_zip_leftD)
  ultimately show ?thesis by (simp add: contribution_def)
qed

lemma propagate_contribution:
  assumes "v \<notin> set (children (h ! v))" "u < length h"
  shows "grad (propagate v h ! u) = grad (h ! u) + contribution h v u * grad (h ! v)"
proof -
  have "v \<notin> fst ` set (zip (children (h ! v)) (localGrads (h ! v)))"
    using assms(1) by (auto dest: set_zip_leftD)
  from accumulate_adds[OF this assms(2)] show ?thesis
    by (simp add: propagate_def contribution_def sum_list_if_mult)
qed

lemma fold_propagate_sum:
  assumes "parents_first h vs" "u < length h"
  shows "grad (fold propagate vs h ! u) =
           grad (h ! u) + (\<Sum>v\<leftarrow>vs. contribution h v u * grad (fold propagate vs h ! v))"
  using assms
proof (induction vs arbitrary: h)
  case Nil
  then show ?case by simp
next
  case (Cons x rest)
  define h1 where "h1 = propagate x h"
  define F where "F = fold propagate rest h1"
  have fr: "\<forall>v. children (h1 ! v) = children (h ! v)" "\<forall>v. localGrads (h1 ! v) = localGrads (h ! v)"
    by (simp_all add: h1_def propagate_frame)
  have xx: "x \<notin> set (children (h ! x))" and xr: "\<forall>v \<in> set rest. x \<notin> set (children (h ! v))"
    and pf: "parents_first h rest"
    using Cons.prems(1) by simp_all
  have pf1: "parents_first h1 rest" using pf parents_first_cong[OF fr(1)] by simp
  have u1: "u < length h1" using Cons.prems(2) by (simp add: h1_def)
  have co: "\<And>v w. contribution h1 v w = contribution h v w"
    by (rule contribution_cong) (simp_all add: fr)
  have "grad (F ! u) = grad (h1 ! u) + (\<Sum>v\<leftarrow>rest. contribution h1 v u * grad (F ! v))"
    unfolding F_def using pf1 u1 by (rule Cons.IH)
  then have 1: "grad (F ! u) = grad (h1 ! u) + (\<Sum>v\<leftarrow>rest. contribution h v u * grad (F ! v))"
    by (simp add: co)
  have 2: "grad (h1 ! u) = grad (h ! u) + contribution h x u * grad (h ! x)"
    unfolding h1_def using xx Cons.prems(2) by (rule propagate_contribution)
  have "grad (F ! x) = grad (h1 ! x)"
    unfolding F_def using xr fr(1) by (intro fold_propagate_grad_other) simp
  also have "\<dots> = grad (h ! x)"
    unfolding h1_def using xx by (rule propagate_grad_other)
  finally have 3: "grad (h ! x) = grad (F ! x)" by simp
  have "fold propagate (x # rest) h = F" by (simp add: F_def h1_def)
  then show ?case using 1 2 3 by simp
qed

lemma reachable_closed:
  assumes cf: "children_first h topo" and r: "rt \<in> set topo" and v: "reachable h rt v"
  shows "v \<in> set topo"
  using v
proof (induction rule: reachable.induct)
  case reachable_root
  then show ?case by (rule r)
next
  case (reachable_child v c)
  then obtain i where i: "i < length topo" "topo ! i = v" by (auto simp: in_set_conv_nth)
  then have "set (children (h ! v)) \<subseteq> set (take i topo)"
    using cf by (auto simp: children_first_def)
  then have "c \<in> set (take i topo)" using reachable_child.hyps(2) by auto
  then show ?case by (rule in_set_takeD)
qed

lemma backward_equation:
  assumes wf: "wf_heap h" and rt: "rt < length h"
  shows "\<exists>h' topo. backward rt h = Some h' \<and> distinct topo \<and>
           set topo = {v. reachable h rt v} \<and>
           (\<forall>u < length h. grad (h' ! u) =
              (if u = rt then 1 else grad (h ! u)) +
              (\<Sum>v\<leftarrow>topo. contribution h v u * grad (h' ! v)))"
proof -
  have "children_first h []" by (simp add: children_first_def)
  from buildTopo_spec[OF wf rt rt this, of "{}"]
  obtain topo where t: "buildTopo (length h) h rt ({}, []) = Some (set topo, topo)"
    "children_first h topo" "distinct topo" "\<forall>u \<in> set topo. u \<le> rt \<and> reachable h rt u"
    "rt \<in> set topo"
    by auto
  define h1 where "h1 = h[rt := (h ! rt)\<lparr>grad := 1\<rparr>]"
  define h' where "h' = fold propagate (rev topo) h1"
  have bw: "backward rt h = Some h'" using t(1) by (simp add: backward_def h1_def h'_def)
  have fr: "\<forall>v. children (h1 ! v) = children (h ! v)" "\<forall>v. localGrads (h1 ! v) = localGrads (h ! v)"
    by (simp_all add: h1_def update_grad_frame)
  have co: "\<And>v w. contribution h1 v w = contribution h v w"
    by (rule contribution_cong) (simp_all add: fr)
  have "parents_first h (rev topo)" using t(2,3) by (rule children_first_parents_first)
  then have pf: "parents_first h1 (rev topo)" using parents_first_cong[OF fr(1)] by simp
  have set_eq: "set topo = {v. reachable h rt v}"
    using t(4) reachable_closed[OF t(2) t(5)] by auto
  have eq: "grad (h' ! u) = (if u = rt then 1 else grad (h ! u)) +
              (\<Sum>v\<leftarrow>topo. contribution h v u * grad (h' ! v))" if u: "u < length h" for u
  proof -
    have "u < length h1" using u by (simp add: h1_def)
    from fold_propagate_sum[OF pf this]
    have "grad (h' ! u) = grad (h1 ! u) + (\<Sum>v\<leftarrow>rev topo. contribution h v u * grad (h' ! v))"
      by (simp add: h'_def co)
    also have "(\<Sum>v\<leftarrow>rev topo. contribution h v u * grad (h' ! v))
        = (\<Sum>v\<leftarrow>topo. contribution h v u * grad (h' ! v))"
      by (simp only: rev_map[symmetric] sum_list_rev)
    also have "grad (h1 ! u) = (if u = rt then 1 else grad (h ! u))"
      using u rt by (simp add: h1_def nth_list_update)
    finally show ?thesis .
  qed
  show ?thesis
    by (rule exI[of _ h'], rule exI[of _ topo]) (simp add: bw t(3) set_eq eq)
qed

lemma sum_list_one:
  fixes f :: "nat \<Rightarrow> real"
  assumes "distinct xs" "v1 \<in> set xs" "\<forall>v \<in> set xs. v \<noteq> v1 \<longrightarrow> f v = 0"
  shows "(\<Sum>v\<leftarrow>xs. f v) = f v1"
proof -
  have "(\<Sum>v\<leftarrow>xs. f v) = sum f (set xs)" using assms(1) by (rule sum_list_distinct_conv_sum_set)
  also have "\<dots> = sum f {v1}"
    using assms(2,3) by (intro sum.mono_neutral_right) auto
  finally show ?thesis by simp
qed

lemma sum_list_two:
  fixes f :: "nat \<Rightarrow> real"
  assumes "distinct xs" "v1 \<in> set xs" "v2 \<in> set xs" "v1 \<noteq> v2"
    "\<forall>v \<in> set xs. v \<noteq> v1 \<and> v \<noteq> v2 \<longrightarrow> f v = 0"
  shows "(\<Sum>v\<leftarrow>xs. f v) = f v1 + f v2"
proof -
  have "(\<Sum>v\<leftarrow>xs. f v) = sum f (set xs)" using assms(1) by (rule sum_list_distinct_conv_sum_set)
  also have "\<dots> = sum f {v1, v2}"
    using assms(2,3,5) by (intro sum.mono_neutral_right) auto
  finally show ?thesis using assms(4) by simp
qed

lemma reachable_prefix:
  assumes wf: "wf_heap h" and r: "r < length h" and v: "reachable (h @ ext) r v"
  shows "reachable h r v"
  using v
proof (induction rule: reachable.induct)
  case reachable_root
  then show ?case by (rule reachable.reachable_root)
next
  case (reachable_child v c)
  have "v \<le> r" using wf r reachable_child.IH by (rule reachable_le)
  then have "(h @ ext) ! v = h ! v" using r by (simp add: nth_append)
  then have "c \<in> set (children (h ! v))" using reachable_child.hyps(2) by simp
  with reachable_child.IH show ?case by (rule reachable.reachable_child)
qed

lemma sum_list_zero:
  fixes f :: "nat \<Rightarrow> real"
  shows "\<forall>v \<in> set xs. f v = 0 \<Longrightarrow> (\<Sum>v\<leftarrow>xs. f v) = 0"
  by (induction xs) auto

lemma diamond_backward:
  assumes wf: "wf_heap h" and a: "a < length h" and b: "b < length h" and c: "c < length h"
    and nb: "\<not> reachable h b a" and nc: "\<not> reachable h c a"
  shows "case mul_Value a (Ref b) h of (p1, h1) \<Rightarrow>
         case mul_Value a (Ref c) h1 of (p2, h2) \<Rightarrow>
         case add_Value p1 (Ref p2) h2 of (z, h3) \<Rightarrow>
           \<exists>h4. backward z h3 = Some h4 \<and>
             grad (h4 ! a) = grad (h ! a) + data (h ! b) + data (h ! c)"
proof -
  define n where "n = length h"
  define da where "da = data (h ! a)"
  define db where "db = data (h ! b)"
  define dc where "dc = data (h ! c)"
  define ext where "ext =
    [\<lparr>data = da * db, grad = 0, children = [a, b], localGrads = [db, da]\<rparr>,
     \<lparr>data = da * dc, grad = 0, children = [a, c], localGrads = [dc, da]\<rparr>,
     \<lparr>data = da * db + da * dc, grad = 0, children = [n, Suc n], localGrads = [1, 1]\<rparr>]"
  define h3 where "h3 = h @ ext"
  have ab: "a \<noteq> b" using nb by (auto intro: reachable_root)
  have ac: "a \<noteq> c" using nc by (auto intro: reachable_root)
  have ops: "mul_Value a (Ref b) h = (n, h @ [ext ! 0])"
    "mul_Value a (Ref c) (h @ [ext ! 0]) = (Suc n, h @ [ext ! 0, ext ! 1])"
    "add_Value n (Ref (Suc n)) (h @ [ext ! 0, ext ! 1]) = (Suc (Suc n), h3)"
    using a b c
    by (simp_all add: mul_Value_def add_Value_def as_Value_def new_Value_def nth_append
        n_def da_def db_def dc_def ext_def h3_def)
  have an: "a < n" "b < n" "c < n" using a b c by (simp_all add: n_def)
  have len: "length h3 = n + 3" by (simp add: h3_def ext_def n_def)
  have old: "\<And>v. v < n \<Longrightarrow> h3 ! v = h ! v" by (simp add: h3_def nth_append n_def)
  have new: "h3 ! n = ext ! 0" "h3 ! Suc n = ext ! 1" "h3 ! Suc (Suc n) = ext ! 2"
    by (simp_all add: h3_def nth_append n_def ext_def)
  have ch: "children (h3 ! n) = [a, b]" "children (h3 ! Suc n) = [a, c]"
    "children (h3 ! Suc (Suc n)) = [n, Suc n]"
    "localGrads (h3 ! n) = [db, da]" "localGrads (h3 ! Suc n) = [dc, da]"
    "localGrads (h3 ! Suc (Suc n)) = [1, 1]"
    by (simp_all add: new ext_def)
  have wf3: "wf_heap h3"
    unfolding wf_heap_def
  proof (intro allI impI)
    fix v assume "v < length h3"
    then consider "v < n" | "v = n" | "v = Suc n" | "v = Suc (Suc n)" using len by linarith
    then show "(\<forall>c\<in>set (children (h3 ! v)). c < v) \<and>
        length (localGrads (h3 ! v)) = length (children (h3 ! v))"
    proof cases
      case 1
      then show ?thesis using wf by (simp add: old wf_heap_def n_def)
    next
      case 2
      then show ?thesis using an by (simp add: ch)
    next
      case 3
      then show ?thesis using an by (simp add: ch)
    next
      case 4
      then show ?thesis by (simp add: ch)
    qed
  qed
  have z: "Suc (Suc n) < length h3" using len by simp
  from backward_equation[OF wf3 z] obtain h4 topo where
    bw: "backward (Suc (Suc n)) h3 = Some h4" and d: "distinct topo"
    and st: "set topo = {v. reachable h3 (Suc (Suc n)) v}"
    and eq: "\<And>u. u < length h3 \<Longrightarrow> grad (h4 ! u) =
        (if u = Suc (Suc n) then 1 else grad (h3 ! u)) +
        (\<Sum>v\<leftarrow>topo. contribution h3 v u * grad (h4 ! v))"
    by blast
  have rz: "Suc (Suc n) \<in> set topo" using st by (simp add: reachable_root)
  have r1: "n \<in> set topo"
    using st reachable_child[OF reachable_root, of n h3 "Suc (Suc n)"] by (simp add: ch)
  have r2: "Suc n \<in> set topo"
    using st reachable_child[OF reachable_root, of "Suc n" h3 "Suc (Suc n)"] by (simp add: ch)
  have from_old: "reachable h x v" if "x < n" "reachable h3 x v" for x v
    using reachable_prefix[OF wf, of x ext v] that by (simp add: h3_def n_def)
  have cases_topo: "v = Suc (Suc n) \<or> v = Suc n \<or> v = n \<or>
      (v < n \<and> (reachable h a v \<or> reachable h b v \<or> reachable h c v))"
    if v: "v \<in> set topo" for v
  proof -
    have lt: "reachable h x v \<Longrightarrow> x < n \<Longrightarrow> v < n" for x
      using reachable_le[OF wf, of x v] by (simp add: n_def)
    from v have "reachable h3 (Suc (Suc n)) v" using st by simp
    from reachable_first[OF this] consider "v = Suc (Suc n)" | "reachable h3 n v"
      | "reachable h3 (Suc n) v" by (auto simp: ch)
    then show ?thesis
    proof cases
      case 1
      then show ?thesis by simp
    next
      case 2
      from reachable_first[OF this] consider "v = n" | "reachable h3 a v" | "reachable h3 b v"
        by (auto simp: ch)
      then show ?thesis
      proof cases
        case 1
        then show ?thesis by simp
      next
        case 2
        then have "reachable h a v" using an from_old by blast
        then show ?thesis using lt an by blast
      next
        case 3
        then have "reachable h b v" using an from_old by blast
        then show ?thesis using lt an by blast
      qed
    next
      case 3
      from reachable_first[OF this] consider "v = Suc n" | "reachable h3 a v" | "reachable h3 c v"
        by (auto simp: ch)
      then show ?thesis
      proof cases
        case 1
        then show ?thesis by simp
      next
        case 2
        then have "reachable h a v" using an from_old by blast
        then show ?thesis using lt an by blast
      next
        case 3
        then have "reachable h c v" using an from_old by blast
        then show ?thesis using lt an by blast
      qed
    qed
  qed
  have child_lt: "\<And>v w. v < length h3 \<Longrightarrow> w \<in> set (children (h3 ! v)) \<Longrightarrow> w < v"
    using wf3 by (auto simp: wf_heap_def)
  have topo_le: "\<And>v. v \<in> set topo \<Longrightarrow> v \<le> Suc (Suc n)"
    using cases_topo by fastforce
  have gz: "grad (h4 ! Suc (Suc n)) = 1"
  proof -
    have "(\<Sum>v\<leftarrow>topo. contribution h3 v (Suc (Suc n)) * grad (h4 ! v)) = 0"
    proof (rule sum_list_zero, rule ballI)
      fix v assume v: "v \<in> set topo"
      then have "v \<le> Suc (Suc n)" by (rule topo_le)
      then have "Suc (Suc n) \<notin> set (children (h3 ! v))"
        using child_lt[of v "Suc (Suc n)"] len by auto
      then show "contribution h3 v (Suc (Suc n)) * grad (h4 ! v) = 0"
        by (simp add: contribution_none)
    qed
    then show ?thesis using eq[OF z] by simp
  qed
  have parents_new: "v = Suc (Suc n)"
    if v: "v \<in> set topo" and w: "w \<in> set (children (h3 ! v))" "n \<le> w" for v w
  proof -
    have "v \<le> Suc (Suc n)" using v by (rule topo_le)
    then have "v < length h3" using len by simp
    then have wv: "w < v" using w(1) by (rule child_lt)
    from cases_topo[OF v] show ?thesis
    proof (elim disjE conjE)
      assume "v = Suc n"
      then show ?thesis using w an by (auto simp: ch)
    next
      assume "v = n"
      then show ?thesis using w an by (auto simp: ch)
    qed (use wv w(2) in auto)
  qed
  have g1: "grad (h4 ! n) = 1"
  proof -
    have "(\<Sum>v\<leftarrow>topo. contribution h3 v n * grad (h4 ! v))
        = contribution h3 (Suc (Suc n)) n * grad (h4 ! Suc (Suc n))"
    proof (rule sum_list_one[OF d rz], intro ballI impI)
      fix v assume v: "v \<in> set topo" "v \<noteq> Suc (Suc n)"
      then have "n \<notin> set (children (h3 ! v))" using parents_new[of v n] by auto
      then show "contribution h3 v n * grad (h4 ! v) = 0" by (simp add: contribution_none)
    qed
    also have "\<dots> = 1" by (simp add: contribution_def ch gz)
    finally show ?thesis using eq[of n] len by (simp add: new ext_def)
  qed
  have g2: "grad (h4 ! Suc n) = 1"
  proof -
    have "(\<Sum>v\<leftarrow>topo. contribution h3 v (Suc n) * grad (h4 ! v))
        = contribution h3 (Suc (Suc n)) (Suc n) * grad (h4 ! Suc (Suc n))"
    proof (rule sum_list_one[OF d rz], intro ballI impI)
      fix v assume v: "v \<in> set topo" "v \<noteq> Suc (Suc n)"
      then have "Suc n \<notin> set (children (h3 ! v))" using parents_new[of v "Suc n"] by auto
      then show "contribution h3 v (Suc n) * grad (h4 ! v) = 0" by (simp add: contribution_none)
    qed
    also have "\<dots> = 1" by (simp add: contribution_def ch gz)
    finally show ?thesis using eq[of "Suc n"] len by (simp add: new ext_def)
  qed
  have "(\<Sum>v\<leftarrow>topo. contribution h3 v a * grad (h4 ! v))
        = contribution h3 n a * grad (h4 ! n) + contribution h3 (Suc n) a * grad (h4 ! Suc n)"
  proof (rule sum_list_two[OF d r1 r2], simp, intro ballI impI)
    fix v assume v: "v \<in> set topo" "v \<noteq> n \<and> v \<noteq> Suc n"
    have "a \<notin> set (children (h3 ! v))"
    proof
      assume ch_a: "a \<in> set (children (h3 ! v))"
      from cases_topo[OF v(1)] v(2) consider "v = Suc (Suc n)"
        | "v < n" "reachable h a v \<or> reachable h b v \<or> reachable h c v" by auto
      then show False
      proof cases
        case 1
        then show ?thesis using ch_a an by (auto simp: ch)
      next
        case 2
        then have ca: "a \<in> set (children (h ! v))" using ch_a by (simp add: old)
        then have "a < v" using wf 2(1) by (auto simp: wf_heap_def n_def)
        moreover have "reachable h a v \<Longrightarrow> v \<le> a" using reachable_le[OF wf a] by simp
        moreover have "reachable h b v \<Longrightarrow> reachable h b a"
          using ca by (auto intro: reachable_child)
        moreover have "reachable h c v \<Longrightarrow> reachable h c a"
          using ca by (auto intro: reachable_child)
        ultimately show ?thesis using 2(2) nb nc by auto
      qed
    qed
    then show "contribution h3 v a * grad (h4 ! v) = 0" by (simp add: contribution_none)
  qed
  also have "\<dots> = db + dc" using ab ac by (simp add: contribution_def ch g1 g2)
  finally have "grad (h4 ! a) = grad (h ! a) + db + dc"
    using eq[of a] an len by (simp add: old)
  then show ?thesis using bw unfolding ops prod.case db_def dc_def by blast
qed

lemma wf_ex_leaves: "wf_heap ex_leaves"
  by (simp add: wf_heap_def ex_leaves_def All_less_Suc)

lemma wf_ex_diamond: "wf_heap ex_diamond"
  by (simp add: wf_heap_def ex_diamond_def All_less_Suc)

lemma reachable_leaf: "children (h ! r) = [] \<Longrightarrow> reachable h r v \<Longrightarrow> v = r"
  by (drule reachable_first) simp

section \<open>Gradients after backpropagation\<close>

text \<open>
  C8. \<open>backward\<close> changes \<open>grad\<close> fields only: on a well-formed store it returns, the
  store keeps its length, and every node of it, so every node reachable from the root,
  keeps its \<open>data\<close>, its \<open>children\<close> and its \<open>localGrads\<close>.
\<close>

theorem backward_frame:
  assumes "wf_heap h" "this < length h"
  shows "\<exists>h'. backward this h = Some h' \<and> length h' = length h \<and>
          (\<forall>v < length h. data (h' ! v) = data (h ! v) \<and>
             children (h' ! v) = children (h ! v) \<and>
             localGrads (h' ! v) = localGrads (h ! v))"
proof -
  from buildTopo_enough[OF assms(1) assms(2) assms(2), of "{}" "[]"]
  obtain vis topo where t: "buildTopo (length h) h this ({}, []) = Some (vis, topo)" by auto
  then have "backward this h = Some (fold propagate (rev topo) (h[this := (h ! this)\<lparr>grad := 1\<rparr>]))"
    by (simp add: backward_def)
  then show ?thesis
    by (simp add: fold_propagate_frame update_grad_frame)
qed

theorem backward_frame_witness:
  "wf_heap ex_heap \<and> 2 < length ex_heap \<and>
   (\<exists>h'. backward 2 ex_heap = Some h' \<and> length h' = length ex_heap \<and>
          (\<forall>v < length ex_heap. data (h' ! v) = data (ex_heap ! v) \<and>
             children (h' ! v) = children (ex_heap ! v) \<and>
             localGrads (h' ! v) = localGrads (ex_heap ! v)))"
  using backward_frame [of ex_heap 2] wf_ex_heap by (simp add: ex_heap_def)

text \<open>
  C1. For a node \<open>a\<close> of a well-formed store whose \<open>grad\<close> is 0:

  \<^item> after \<open>y = a.mul(a)\<close> and \<open>y.backward()\<close> the \<open>grad\<close> of \<open>a\<close> is \<open>2 * a.data\<close>:
    \<open>a\<close> is a child of the one parent \<open>y\<close> twice, and both contributions are added;

  \<^item> after \<open>z = a.mul(b).add(a.mul(c))\<close> and \<open>z.backward()\<close>, for nodes \<open>b\<close> and \<open>c\<close> whose
    graphs do not contain \<open>a\<close> (leaves other than \<open>a\<close>, for instance), the \<open>grad\<close> of \<open>a\<close>
    is \<open>b.data + c.data\<close>: \<open>a\<close> is a child of the two parents \<open>a * b\<close> and \<open>a * c\<close>, and
    the contributions of both are added;

  \<^item> in general, \<open>backward\<close> from any node \<open>rt\<close> of the store returns, and the \<open>grad\<close> that it
    leaves at a node \<open>u\<close> is what was there before (1 at \<open>rt\<close> itself) plus, for every node
    \<open>v\<close> of the graph of \<open>rt\<close> and every position at which \<open>u\<close> is a child of \<open>v\<close>, the local
    gradient of \<open>v\<close> at that position times the final \<open>grad\<close> of \<open>v\<close>; \<open>topo\<close> lists the
    nodes of the graph of \<open>rt\<close>, each once;

  \<^item> and the step of \<open>backward\<close> at one parent \<open>v\<close> adds to the \<open>grad\<close> of a node \<open>u\<close>, on top
    of what other parents have added before, \<open>localGrad * v.grad\<close> for each position at
    which \<open>u\<close> is a child of \<open>v\<close>.
\<close>

theorem backward_accumulates:
  assumes "wf_heap h" "a < length h" "grad (h ! a) = 0"
  shows "(case mul_Value a (Ref a) h of (y, h1) \<Rightarrow>
           \<exists>h2. backward y h1 = Some h2 \<and> grad (h2 ! a) = 2 * data (h ! a)) \<and>
         (\<forall>b c. b < length h \<and> c < length h \<and> \<not> reachable h b a \<and> \<not> reachable h c a \<longrightarrow>
            (case mul_Value a (Ref b) h of (p1, h1) \<Rightarrow>
             case mul_Value a (Ref c) h1 of (p2, h2) \<Rightarrow>
             case add_Value p1 (Ref p2) h2 of (z, h3) \<Rightarrow>
               \<exists>h4. backward z h3 = Some h4 \<and> grad (h4 ! a) = data (h ! b) + data (h ! c))) \<and>
         (\<forall>rt < length h. \<exists>h' topo. backward rt h = Some h' \<and> distinct topo \<and>
            set topo = {v. reachable h rt v} \<and>
            (\<forall>u < length h. grad (h' ! u) =
               (if u = rt then 1 else grad (h ! u)) +
               (\<Sum>v\<leftarrow>topo. contribution h v u * grad (h' ! v)))) \<and>
         (\<forall>v u. v < length h \<and> u < length h \<longrightarrow>
            grad (propagate v h ! u) =
              grad (h ! u) + (\<Sum>(c, l)\<leftarrow>zip (children (h ! v)) (localGrads (h ! v)).
                                 if c = u then l * grad (h ! v) else 0))"
proof -
  let ?d = "data (h ! a)"
  have m: "mul_Value a (Ref a) h = (length h, snd (new_Value (?d * ?d) [a, a] [?d, ?d] h))"
    by (simp add: mul_Value_def as_Value_def new_Value_def)
  from backward_fresh_root[of h "[a, a]" "[?d, ?d]" a "?d * ?d"] assms
  obtain h2 where "backward (length h) (snd (new_Value (?d * ?d) [a, a] [?d, ?d] h)) = Some h2"
    "grad (h2 ! a) = grad (accumulate (length h) (zip [a, a] [?d, ?d])
        (h @ [\<lparr>data = ?d * ?d, grad = 1, children = [a, a], localGrads = [?d, ?d]\<rparr>]) ! a)"
    by auto
  then have twice: "case mul_Value a (Ref a) h of (y, h1) \<Rightarrow>
           \<exists>h2. backward y h1 = Some h2 \<and> grad (h2 ! a) = 2 * data (h ! a)"
    using assms by (simp add: m nth_append)
  have two: "\<forall>b c. b < length h \<and> c < length h \<and> \<not> reachable h b a \<and> \<not> reachable h c a \<longrightarrow>
            (case mul_Value a (Ref b) h of (p1, h1) \<Rightarrow>
             case mul_Value a (Ref c) h1 of (p2, h2) \<Rightarrow>
             case add_Value p1 (Ref p2) h2 of (z, h3) \<Rightarrow>
               \<exists>h4. backward z h3 = Some h4 \<and> grad (h4 ! a) = data (h ! b) + data (h ! c))"
  proof (intro allI impI)
    fix b c assume "b < length h \<and> c < length h \<and> \<not> reachable h b a \<and> \<not> reachable h c a"
    then show "case mul_Value a (Ref b) h of (p1, h1) \<Rightarrow>
             case mul_Value a (Ref c) h1 of (p2, h2) \<Rightarrow>
             case add_Value p1 (Ref p2) h2 of (z, h3) \<Rightarrow>
               \<exists>h4. backward z h3 = Some h4 \<and> grad (h4 ! a) = data (h ! b) + data (h ! c)"
      using diamond_backward[OF assms(1,2), of b c] assms(3) by simp
  qed
  have all: "\<forall>rt < length h. \<exists>h' topo. backward rt h = Some h' \<and> distinct topo \<and>
            set topo = {v. reachable h rt v} \<and>
            (\<forall>u < length h. grad (h' ! u) =
               (if u = rt then 1 else grad (h ! u)) +
               (\<Sum>v\<leftarrow>topo. contribution h v u * grad (h' ! v)))"
    using backward_equation[OF assms(1)] by blast
  have step: "\<forall>v u. v < length h \<and> u < length h \<longrightarrow>
            grad (propagate v h ! u) =
              grad (h ! u) + (\<Sum>(c, l)\<leftarrow>zip (children (h ! v)) (localGrads (h ! v)).
                                 if c = u then l * grad (h ! v) else 0)"
    using propagate_adds[OF assms(1)] by blast
  show ?thesis
    by (rule conjI[OF twice conjI[OF two conjI[OF all step]]])
qed

theorem backward_accumulates_witness:
  "wf_heap ex_leaves \<and> 0 < length ex_leaves \<and> grad (ex_leaves ! 0) = 0 \<and>
   (case mul_Value 0 (Ref 0) ex_leaves of (y, h1) \<Rightarrow>
      \<exists>h2. backward y h1 = Some h2 \<and> grad (h2 ! 0) = 2 * 2) \<and>
   1 < length ex_leaves \<and> 2 < length ex_leaves \<and>
   \<not> reachable ex_leaves 1 0 \<and> \<not> reachable ex_leaves 2 0 \<and>
   (case mul_Value 0 (Ref 1) ex_leaves of (p1, h1) \<Rightarrow>
    case mul_Value 0 (Ref 2) h1 of (p2, h2) \<Rightarrow>
    case add_Value p1 (Ref p2) h2 of (z, h3) \<Rightarrow>
      z = 5 \<and> h3 = ex_diamond \<and> (\<exists>h4. backward z h3 = Some h4 \<and> grad (h4 ! 0) = 3 + 5)) \<and>
   backward 5 ex_diamond = Some
     [\<lparr>data = 2, grad = 8, children = [], localGrads = []\<rparr>,
      \<lparr>data = 3, grad = 2, children = [], localGrads = []\<rparr>,
      \<lparr>data = 5, grad = 2, children = [], localGrads = []\<rparr>,
      \<lparr>data = 6, grad = 1, children = [0, 1], localGrads = [3, 2]\<rparr>,
      \<lparr>data = 10, grad = 1, children = [0, 2], localGrads = [5, 2]\<rparr>,
      \<lparr>data = 16, grad = 1, children = [3, 4], localGrads = [1, 1]\<rparr>] \<and>
   wf_heap ex_diamond \<and> 0 < length ex_diamond \<and> grad (ex_diamond ! 0) = 0 \<and>
   5 < length ex_diamond \<and>
   (\<exists>h' topo. backward 5 ex_diamond = Some h' \<and> distinct topo \<and>
      set topo = {v. reachable ex_diamond 5 v} \<and>
      (\<forall>u < length ex_diamond. grad (h' ! u) =
         (if u = 5 then 1 else grad (ex_diamond ! u)) +
         (\<Sum>v\<leftarrow>topo. contribution ex_diamond v u * grad (h' ! v)))) \<and>
   grad (propagate 2 ex_heap ! 0) = grad (ex_heap ! 0) + 5 * grad (ex_heap ! 2)"
proof -
  have g: "0 < length ex_leaves" "1 < length ex_leaves" "2 < length ex_leaves"
    "grad (ex_leaves ! 0) = 0" "data (ex_leaves ! 0) = 2" "data (ex_leaves ! 1) = 3"
    "data (ex_leaves ! 2) = 5"
    by (simp_all add: ex_leaves_def)
  have n: "\<not> reachable ex_leaves 1 0" "\<not> reachable ex_leaves 2 0"
    using reachable_leaf[of ex_leaves 1 0] reachable_leaf[of ex_leaves 2 0]
    by (auto simp: ex_leaves_def)
  note t = backward_accumulates [OF wf_ex_leaves g(1) g(4)]
  have 1: "case mul_Value 0 (Ref 0) ex_leaves of (y, h1) \<Rightarrow>
      \<exists>h2. backward y h1 = Some h2 \<and> grad (h2 ! 0) = 2 * 2"
    using t [THEN conjunct1] g(5) by simp
  have pre: "1 < length ex_leaves \<and> 2 < length ex_leaves \<and>
      \<not> reachable ex_leaves 1 0 \<and> \<not> reachable ex_leaves 2 0"
    using g(2,3) n by simp
  have "case mul_Value 0 (Ref 1) ex_leaves of (p1, h1) \<Rightarrow>
    case mul_Value 0 (Ref 2) h1 of (p2, h2) \<Rightarrow>
    case add_Value p1 (Ref p2) h2 of (z, h3) \<Rightarrow>
      \<exists>h4. backward z h3 = Some h4 \<and> grad (h4 ! 0) = data (ex_leaves ! 1) + data (ex_leaves ! 2)"
    using t [THEN conjunct2, THEN conjunct1, rule_format, OF pre] .
  moreover have ops: "mul_Value 0 (Ref 1) ex_leaves = (3, take 4 ex_diamond)"
    "mul_Value 0 (Ref 2) (take 4 ex_diamond) = (4, take 5 ex_diamond)"
    "add_Value 3 (Ref 4) (take 5 ex_diamond) = (5, ex_diamond)"
    by (simp_all add: mul_Value_def add_Value_def as_Value_def new_Value_def ex_leaves_def
        ex_diamond_def)
  ultimately have 2: "case mul_Value 0 (Ref 1) ex_leaves of (p1, h1) \<Rightarrow>
    case mul_Value 0 (Ref 2) h1 of (p2, h2) \<Rightarrow>
    case add_Value p1 (Ref p2) h2 of (z, h3) \<Rightarrow>
      z = 5 \<and> h3 = ex_diamond \<and> (\<exists>h4. backward z h3 = Some h4 \<and> grad (h4 ! 0) = 3 + 5)"
    unfolding ops prod.case g(6,7) by simp
  have 3: "backward 5 ex_diamond = Some
     [\<lparr>data = 2, grad = 8, children = [], localGrads = []\<rparr>,
      \<lparr>data = 3, grad = 2, children = [], localGrads = []\<rparr>,
      \<lparr>data = 5, grad = 2, children = [], localGrads = []\<rparr>,
      \<lparr>data = 6, grad = 1, children = [0, 1], localGrads = [3, 2]\<rparr>,
      \<lparr>data = 10, grad = 1, children = [0, 2], localGrads = [5, 2]\<rparr>,
      \<lparr>data = 16, grad = 1, children = [3, 4], localGrads = [1, 1]\<rparr>]"
    by (simp add: backward_def ex_diamond_def propagate_def eval_nat_numeral)
  have d: "0 < length ex_diamond" "grad (ex_diamond ! 0) = 0" "5 < length ex_diamond"
    by (simp_all add: ex_diamond_def)
  note t2 = backward_accumulates [OF wf_ex_diamond d(1) d(2)]
  have 4: "\<exists>h' topo. backward 5 ex_diamond = Some h' \<and> distinct topo \<and>
      set topo = {v. reachable ex_diamond 5 v} \<and>
      (\<forall>u < length ex_diamond. grad (h' ! u) =
         (if u = 5 then 1 else grad (ex_diamond ! u)) +
         (\<Sum>v\<leftarrow>topo. contribution ex_diamond v u * grad (h' ! v)))"
    using t2 [THEN conjunct2, THEN conjunct2, THEN conjunct1, rule_format, OF d(3)] .
  have "grad (propagate 2 ex_heap ! 0) = grad (ex_heap ! 0) + 5 * grad (ex_heap ! 2)"
    by (simp add: ex_heap_def propagate_def)
  then show ?thesis
    using wf_ex_leaves g(1,2,3,4) n 1 2 3 wf_ex_diamond d 4 by (intro conjI)
qed

text \<open>
  C10. For a node \<open>x\<close> with \<open>x.data \<le> 0\<close>, \<open>x.relu()\<close> is a node with data 0 whose one
  local gradient, with respect to \<open>x\<close>, is 0, also where \<open>x.data\<close> is exactly 0; and
  \<open>backward\<close> from that node leaves the \<open>grad\<close> of \<open>x\<close> as it was.
\<close>

theorem relu_nonpositive:
  assumes "wf_heap h" "x < length h" "data (h ! x) \<le> 0"
  shows "case relu x h of (r, h1) \<Rightarrow>
           data (h1 ! r) = 0 \<and> children (h1 ! r) = [x] \<and> localGrads (h1 ! r) = [0] \<and>
           (\<exists>h2. backward r h1 = Some h2 \<and> grad (h2 ! x) = grad (h ! x))"
proof -
  have m: "relu x h = (length h, snd (new_Value 0 [x] [0] h))"
    using assms by (simp add: relu_def new_Value_def max_def)
  from backward_fresh_root[of h "[x]" "[0]" x 0] assms
  obtain h2 where "backward (length h) (snd (new_Value 0 [x] [0] h)) = Some h2"
    "grad (h2 ! x) = grad (accumulate (length h) (zip [x] [0])
        (h @ [\<lparr>data = 0, grad = 1, children = [x], localGrads = [0]\<rparr>]) ! x)"
    by auto
  then show ?thesis using assms by (simp add: m nth_append new_Value_def)
qed

theorem relu_nonpositive_witness:
  "wf_heap ex_neg \<and> 1 < length ex_neg \<and> data (ex_neg ! 1) \<le> 0 \<and>
   (case relu 1 ex_neg of (r, h1) \<Rightarrow>
           data (h1 ! r) = 0 \<and> children (h1 ! r) = [1] \<and> localGrads (h1 ! r) = [0] \<and>
           (\<exists>h2. backward r h1 = Some h2 \<and> grad (h2 ! 1) = 0))"
  using relu_nonpositive [of ex_neg 1] by (simp add: ex_neg_def wf_heap_def All_less_Suc)

section \<open>Softmax\<close>

lemma prefix_nth: "prefix h h' \<Longrightarrow> v < length h \<Longrightarrow> h' ! v = h ! v"
  by (auto simp: prefix_def nth_append)

lemma prefix_valid: "prefix h h' \<Longrightarrow> v < length h \<Longrightarrow> v < length h'"
  using prefix_length_le[of h h'] by simp

lemma add_Value_Ref:
  "add_Value a (Ref b) h =
     (length h, h @ [\<lparr>data = data (h ! a) + data (h ! b), grad = 0, children = [a, b], localGrads = [1, 1]\<rparr>])"
  by (simp add: add_Value_def as_Value_def new_Value_def)

lemma mul_Value_Ref:
  "mul_Value a (Ref b) h =
     (length h, h @ [\<lparr>data = data (h ! a) * data (h ! b), grad = 0, children = [a, b],
        localGrads = [data (h ! b), data (h ! a)]\<rparr>])"
  by (simp add: mul_Value_def as_Value_def new_Value_def)

lemma sub_exp:
  assumes "v < length h"
  shows "\<exists>r h'. (let (s, h1) = sub v (Num m) h in exp_Value s h1) = (r, h') \<and> prefix h h' \<and>
           r < length h' \<and> data (h' ! r) = exp (data (h ! v) - m)"
  using assms
  by (simp add: sub_def neg_def as_Value_def new_Value_def mul_Value_def add_Value_def exp_Value_def
      nth_append Let_def)

lemma map_heap_inv:
  assumes step: "\<And>x h. x \<in> set xs \<Longrightarrow> prefix h0 h \<Longrightarrow>
             \<exists>y h'. f x h = Some (y, h') \<and> prefix h h' \<and> y < length h' \<and> data (h' ! y) = g x"
  shows "\<exists>ys h'. map_heap f xs h0 = Some (ys, h') \<and> prefix h0 h' \<and> length ys = length xs \<and>
           (\<forall>i < length xs. ys ! i < length h' \<and> data (h' ! (ys ! i)) = g (xs ! i))"
  using step
proof (induction xs arbitrary: h0)
  case Nil
  then show ?case by simp
next
  case (Cons x xs)
  obtain y h1 where 1: "f x h0 = Some (y, h1)" "prefix h0 h1" "y < length h1" "data (h1 ! y) = g x"
    using Cons.prems[of x h0] by auto
  have "\<exists>ys h'. map_heap f xs h1 = Some (ys, h') \<and> prefix h1 h' \<and> length ys = length xs \<and>
           (\<forall>i < length xs. ys ! i < length h' \<and> data (h' ! (ys ! i)) = g (xs ! i))"
  proof (rule Cons.IH)
    fix x' h assume "x' \<in> set xs" "prefix h1 h"
    then show "\<exists>y h'. f x' h = Some (y, h') \<and> prefix h h' \<and> y < length h' \<and> data (h' ! y) = g x'"
      using Cons.prems[of x' h] 1(2) by auto
  qed
  then obtain ys h' where 2: "map_heap f xs h1 = Some (ys, h')" "prefix h1 h'" "length ys = length xs"
    "\<forall>i < length xs. ys ! i < length h' \<and> data (h' ! (ys ! i)) = g (xs ! i)" by blast
  have y': "y < length h'" "data (h' ! y) = g x"
    using 1 2(2) by (auto simp: prefix_nth intro: prefix_valid)
  have "prefix h0 h'" using 1(2) 2(2) by auto
  moreover have "\<forall>i < length (x # xs). (y # ys) ! i < length h' \<and> data (h' ! ((y # ys) ! i)) = g ((x # xs) ! i)"
    using 2(4) y' by (auto simp: nth_Cons')
  ultimately show ?case using 1(1) 2(1) 2(3) by simp
qed

lemma reduce_add_data:
  assumes "acc < length h" "\<forall>e \<in> set es. e < length h"
  shows "\<exists>t h'. reduce_heap (\<lambda>sum e h. Some (add_Value sum (Ref e) h)) es acc h = Some (t, h') \<and>
           prefix h h' \<and> t < length h' \<and>
           data (h' ! t) = data (h ! acc) + (\<Sum>e\<leftarrow>es. data (h ! e))"
  using assms
proof (induction es arbitrary: acc h)
  case Nil
  then show ?case by simp
next
  case (Cons e es)
  let ?h1 = "h @ [\<lparr>data = data (h ! acc) + data (h ! e), grad = 0, children = [acc, e], localGrads = [1, 1]\<rparr>]"
  have "length h < length ?h1" "\<forall>e \<in> set es. e < length ?h1" using Cons.prems by auto
  from Cons.IH[OF this] obtain t h' where
    1: "reduce_heap (\<lambda>sum e h. Some (add_Value sum (Ref e) h)) es (length h) ?h1 = Some (t, h')"
       "prefix ?h1 h'" "t < length h'"
       "data (h' ! t) = data (?h1 ! length h) + (\<Sum>e\<leftarrow>es. data (?h1 ! e))" by blast
  have "(\<Sum>e\<leftarrow>es. data (?h1 ! e)) = (\<Sum>e\<leftarrow>es. data (h ! e))"
    using Cons.prems by (intro arg_cong[where f=sum_list] map_cong) (auto simp: nth_append)
  then have "data (h' ! t) = data (h ! acc) + (\<Sum>e\<leftarrow>e # es. data (h ! e))"
    using 1(4) by simp
  moreover have "prefix h h'" using 1(2) by (rule append_prefixD)
  ultimately show ?case using 1(1,3) by (simp add: add_Value_Ref)
qed

lemma js_pow_pos: "0 < x \<Longrightarrow> js_pow x n = Some (x powr n)"
  by (simp add: js_pow_def)

lemma div_Value_Ref_pos:
  assumes "0 < data (h ! t)"
  shows "\<exists>h'. div_Value e (Ref t) h = Some (Suc (length h), h') \<and> prefix h h' \<and> length h' = Suc (Suc (length h))
           \<and> (e < length h \<longrightarrow> data (h' ! Suc (length h)) = data (h ! e) / data (h ! t))"
  using assms
  by (simp add: div_Value_def as_Value_def pow_Value_def js_pow_pos new_Value_def mul_Value_Ref nth_append
      powr_minus divide_inverse)

lemma softmax_data:
  assumes ne: "logits \<noteq> []" and valid: "\<forall>v \<in> set logits. v < length h"
  shows "\<exists>out h'. softmax logits h = Some (out, h') \<and> prefix h h' \<and> length out = length logits \<and>
           (\<forall>i < length logits. out ! i < length h' \<and>
               data (h' ! (out ! i)) = softmax_val (map (\<lambda>v. data (h ! v)) logits) i)"
proof -
  let ?ds = "map (\<lambda>v. data (h ! v)) logits"
  define M where "M = fold max (tl ?ds) (hd ?ds)"
  have mx: "js_max ?ds = Some M" using ne by (cases logits) (simp_all add: M_def)
  let ?f = "\<lambda>v h. do { m \<leftarrow> Some M; let (s, h') = sub v (Num m) h; Some (exp_Value s h') }"
  have "\<exists>ys h'. map_heap ?f logits h = Some (ys, h') \<and> prefix h h' \<and> length ys = length logits \<and>
           (\<forall>i < length logits. ys ! i < length h' \<and> data (h' ! (ys ! i)) = exp (data (h ! (logits ! i)) - M))"
  proof (rule map_heap_inv)
    fix x h0 assume x: "x \<in> set logits" "prefix h h0"
    then have xl: "x < length h0" using valid by (auto intro: prefix_valid)
    from sub_exp[OF this, of M] obtain r h' where
      "(let (s, h1) = sub x (Num M) h0 in exp_Value s h1) = (r, h')" "prefix h0 h'" "r < length h'"
      "data (h' ! r) = exp (data (h0 ! x) - M)" by blast
    moreover have "data (h0 ! x) = data (h ! x)" using x valid by (simp add: prefix_nth)
    ultimately show "\<exists>y h'. ?f x h0 = Some (y, h') \<and> prefix h0 h' \<and> y < length h' \<and> data (h' ! y) = exp (data (h ! x) - M)"
      by (auto simp: Let_def split: prod.splits)
  qed
  then obtain exps h1 where e: "map_heap ?f logits h = Some (exps, h1)" "prefix h h1"
    "length exps = length logits"
    "\<forall>i < length logits. exps ! i < length h1 \<and> data (h1 ! (exps ! i)) = exp (data (h ! (logits ! i)) - M)"
    by blast
  let ?h2 = "h1 @ [\<lparr>data = 0, grad = 0, children = [], localGrads = []\<rparr>]"
  have ev: "\<forall>e \<in> set exps. e < length ?h2" using e(3,4) by (auto simp: in_set_conv_nth less_Suc_eq)
  from reduce_add_data[of "length h1" ?h2 exps] ev obtain t h3 where
    t: "reduce_heap (\<lambda>sum e h. Some (add_Value sum (Ref e) h)) exps (length h1) ?h2 = Some (t, h3)"
      "prefix ?h2 h3" "t < length h3"
      "data (h3 ! t) = data (?h2 ! length h1) + (\<Sum>e\<leftarrow>exps. data (?h2 ! e))" by auto
  have exps_data: "map (\<lambda>e. data (?h2 ! e)) exps = map (\<lambda>d. exp (d - M)) ?ds"
    using e(3,4) by (auto simp: list_eq_iff_nth_eq nth_append)
  have T: "data (h3 ! t) = (\<Sum>d\<leftarrow>?ds. exp (d - M))"
    using t(4) exps_data by (simp add: comp_def)
  have "0 < (\<Sum>d\<leftarrow>?ds. exp (d - M))"
    using ne by (cases logits) (auto intro!: add_pos_nonneg sum_list_nonneg)
  then have Tpos: "0 < data (h3 ! t)" using T by simp
  have h13: "prefix h1 h3" using t(2) by (rule append_prefixD)
  have "\<exists>ys h'. map_heap (\<lambda>e h. div_Value e (Ref t) h) exps h3 = Some (ys, h') \<and> prefix h3 h' \<and> length ys = length exps \<and>
           (\<forall>i < length exps. ys ! i < length h' \<and> data (h' ! (ys ! i)) = data (h1 ! (exps ! i)) / data (h3 ! t))"
  proof (rule map_heap_inv)
    fix x h0 assume x: "x \<in> set exps" "prefix h3 h0"
    have x1: "x < length h1" using x(1) e(3,4) by (auto simp: in_set_conv_nth)
    then have x3: "x < length h3" using h13 by (rule prefix_valid[rotated])
    then have x0: "x < length h0" using x(2) by (rule prefix_valid[rotated])
    have t0: "data (h0 ! t) = data (h3 ! t)" using x(2) t(3) by (simp add: prefix_nth)
    have d0: "data (h0 ! x) = data (h1 ! x)"
      using prefix_nth[OF x(2) x3] prefix_nth[OF h13 x1] by simp
    from div_Value_Ref_pos[of h0 t x] Tpos t0 obtain h' where
      "div_Value x (Ref t) h0 = Some (Suc (length h0), h')" "prefix h0 h'" "length h' = Suc (Suc (length h0))"
      "x < length h0 \<longrightarrow> data (h' ! Suc (length h0)) = data (h0 ! x) / data (h0 ! t)" by auto
    then show "\<exists>y h'. div_Value x (Ref t) h0 = Some (y, h') \<and> prefix h0 h' \<and> y < length h' \<and>
        data (h' ! y) = data (h1 ! x) / data (h3 ! t)"
      using x0 t0 d0 by auto
  qed
  then obtain out h' where o: "map_heap (\<lambda>e h. div_Value e (Ref t) h) exps h3 = Some (out, h')"
    "prefix h3 h'" "length out = length exps"
    "\<forall>i < length exps. out ! i < length h' \<and> data (h' ! (out ! i)) = data (h1 ! (exps ! i)) / data (h3 ! t)"
    by blast
  have sm: "softmax logits h = Some (out, h')"
    using mx e(1) t(1) o(1) by (simp add: softmax_def new_Value_def)
  have "prefix h h'" using e(2) h13 o(2) by auto
  moreover have "\<forall>i < length logits. out ! i < length h' \<and>
               data (h' ! (out ! i)) = softmax_val ?ds i"
    using o(4) e(3,4) T by (simp add: softmax_val_def M_def)
  ultimately show ?thesis using sm o(3) e(3) by auto
qed

lemma fold_max_shift: "fold max (map (\<lambda>d. d + c) xs) (x + c) = fold max xs x + (c::real)"
proof (induction xs arbitrary: x)
  case Nil
  then show ?case by simp
next
  case (Cons a xs)
  have "max (a + c) (x + c) = max a x + c" by (simp add: max_def)
  then show ?case using Cons[of "max a x"] by simp
qed

lemma softmax_val_shift:
  assumes "ds \<noteq> []" "i < length ds"
  shows "softmax_val (map (\<lambda>d. d + c) ds) i = softmax_val ds i"
proof -
  obtain x xs where ds: "ds = x # xs" using assms(1) by (cases ds) auto
  have M: "fold max (tl (map (\<lambda>d. d + c) ds)) (hd (map (\<lambda>d. d + c) ds)) = fold max (tl ds) (hd ds) + c"
    by (simp add: ds fold_max_shift)
  show ?thesis using assms(2) unfolding softmax_val_def M
    by (simp add: comp_def)
qed

lemma softmax_val_pos:
  assumes "i < length ds"
  shows "0 < softmax_val ds i"
proof -
  have "0 < (\<Sum>d\<leftarrow>ds. exp (d - fold max (tl ds) (hd ds)))"
    using assms by (cases ds) (auto intro!: add_pos_nonneg sum_list_nonneg)
  then show ?thesis by (simp add: softmax_val_def)
qed

lemma softmax_val_sum:
  assumes "ds \<noteq> []"
  shows "(\<Sum>i\<leftarrow>[0..<length ds]. softmax_val ds i) = 1"
proof -
  let ?M = "fold max (tl ds) (hd ds)"
  let ?S = "\<Sum>d\<leftarrow>ds. exp (d - ?M)"
  have pos: "0 < ?S"
    using assms by (cases ds) (auto intro!: add_pos_nonneg sum_list_nonneg)
  have "(\<Sum>i\<leftarrow>[0..<length ds]. softmax_val ds i) = (\<Sum>i\<leftarrow>[0..<length ds]. exp (ds ! i - ?M) * inverse ?S)"
    by (simp add: softmax_val_def divide_inverse)
  also have "\<dots> = (\<Sum>i\<leftarrow>[0..<length ds]. exp (ds ! i - ?M)) * inverse ?S"
    by (simp add: sum_list_mult_const)
  also have "(\<Sum>i\<leftarrow>[0..<length ds]. exp (ds ! i - ?M)) = ?S"
    by (rule arg_cong[where f=sum_list], rule nth_equalityI) simp_all
  finally show ?thesis using pos by simp
qed

text \<open>
  C3. On a non-empty list of nodes of the store, \<open>softmax\<close> returns a list of the same
  length whose data are non-negative and sum to 1.
\<close>

theorem softmax_probability_vector:
  assumes "logits \<noteq> []" "\<forall>v \<in> set logits. v < length h"
  shows "\<exists>out h'. softmax logits h = Some (out, h') \<and> length out = length logits \<and>
           (\<forall>r \<in> set out. 0 \<le> data (h' ! r)) \<and> (\<Sum>r\<leftarrow>out. data (h' ! r)) = 1"
proof -
  let ?ds = "map (\<lambda>v. data (h ! v)) logits"
  from softmax_data[OF assms] obtain out h' where
    s: "softmax logits h = Some (out, h')" "length out = length logits"
    "\<forall>i < length logits. out ! i < length h' \<and> data (h' ! (out ! i)) = softmax_val ?ds i" by blast
  have "\<forall>r \<in> set out. 0 \<le> data (h' ! r)"
  proof
    fix r assume "r \<in> set out"
    then obtain i where "i < length logits" "out ! i = r" using s(2) by (auto simp: in_set_conv_nth)
    then show "0 \<le> data (h' ! r)" using s(3) softmax_val_pos[of i ?ds] by force
  qed
  moreover have "map (\<lambda>r. data (h' ! r)) out = map (softmax_val ?ds) [0..<length ?ds]"
    using s(2,3) by (intro nth_equalityI) simp_all
  then have "(\<Sum>r\<leftarrow>out. data (h' ! r)) = 1"
    using softmax_val_sum[of ?ds] assms(1) by simp
  ultimately show ?thesis using s(1,2) by blast
qed

theorem softmax_probability_vector_witness:
  "[0, 1 :: nat] \<noteq> [] \<and> 0 < length ex_logits \<and> 1 < length ex_logits \<and>
   (\<exists>out h'. softmax [0, 1] ex_logits = Some (out, h') \<and> length out = length [0, 1 :: nat] \<and>
           (\<forall>r \<in> set out. 0 \<le> data (h' ! r)) \<and> (\<Sum>r\<leftarrow>out. data (h' ! r)) = 1)"
  using softmax_probability_vector [of "[0, 1]" ex_logits] by (simp add: ex_logits_def)

text \<open>
  C9. Adding a constant \<open>c\<close> to the data of every logit does not change the data of the
  output of \<open>softmax\<close>: for two non-empty lists of nodes of equal length, in two stores,
  where each logit of the second has the data of the first plus \<open>c\<close>, both calls return
  and the outputs have the same data.
\<close>

theorem softmax_shift_invariant:
  assumes "logits \<noteq> []" "\<forall>v \<in> set logits. v < length h"
    and "length logits' = length logits" "\<forall>v \<in> set logits'. v < length h'"
    and "\<forall>i < length logits. data (h' ! (logits' ! i)) = data (h ! (logits ! i)) + c"
  shows "\<exists>out hs out' hs'. softmax logits h = Some (out, hs) \<and>
           softmax logits' h' = Some (out', hs') \<and>
           map (\<lambda>r. data (hs' ! r)) out' = map (\<lambda>r. data (hs ! r)) out"
proof -
  let ?ds = "map (\<lambda>v. data (h ! v)) logits"
  let ?ds' = "map (\<lambda>v. data (h' ! v)) logits'"
  have ne': "logits' \<noteq> []" using assms(1,3) by auto
  have ds': "?ds' = map (\<lambda>d. d + c) ?ds"
    using assms(3,5) by (intro nth_equalityI) simp_all
  from softmax_data[OF assms(1,2)] obtain out hs where
    1: "softmax logits h = Some (out, hs)" "length out = length logits"
    "\<forall>i < length logits. out ! i < length hs \<and> data (hs ! (out ! i)) = softmax_val ?ds i" by blast
  from softmax_data[OF ne' assms(4)] obtain out' hs' where
    2: "softmax logits' h' = Some (out', hs')" "length out' = length logits'"
    "\<forall>i < length logits'. out' ! i < length hs' \<and> data (hs' ! (out' ! i)) = softmax_val ?ds' i" by blast
  have "map (\<lambda>r. data (hs' ! r)) out' = map (\<lambda>r. data (hs ! r)) out"
    using 1(2,3) 2(2,3) assms(1,3) softmax_val_shift[of ?ds _ c] unfolding ds'
    by (intro nth_equalityI) simp_all
  then show ?thesis using 1(1) 2(1) by blast
qed

theorem softmax_shift_invariant_witness:
  "[0, 1 :: nat] \<noteq> [] \<and> 0 < length ex_logits \<and> 1 < length ex_logits \<and>
   length [0, 1 :: nat] = length [0, 1 :: nat] \<and>
   0 < length ex_shifted \<and> 1 < length ex_shifted \<and>
   data (ex_shifted ! 0) = data (ex_logits ! 0) + 10 \<and>
   data (ex_shifted ! 1) = data (ex_logits ! 1) + 10 \<and>
   (\<exists>out hs out' hs'. softmax [0, 1] ex_logits = Some (out, hs) \<and>
       softmax [0, 1] ex_shifted = Some (out', hs') \<and>
       map (\<lambda>r. data (hs' ! r)) out' = map (\<lambda>r. data (hs ! r)) out)"
  using softmax_shift_invariant [of "[0, 1]" ex_logits "[0, 1]" ex_shifted 10]
  by (simp add: ex_logits_def ex_shifted_def All_less_Suc)

section \<open>Tokenizer\<close>

lemma indexOf_range: "ch \<in> set cs \<Longrightarrow> 0 \<le> indexOf cs ch \<and> indexOf cs ch < int (length cs)"
  by (induction cs) (auto simp: Let_def)

lemma indexOf_last: "distinct cs \<Longrightarrow> cs \<noteq> [] \<Longrightarrow> indexOf cs (last cs) = int (length cs) - 1"
proof (induction cs)
  case Nil
  then show ?case by simp
next
  case (Cons c cs)
  show ?case
  proof (cases "cs = []")
    case True
    then show ?thesis by simp
  next
    case False
    then have "last cs \<in> set cs" by simp
    then have "c \<noteq> last cs" using Cons.prems by auto
    then show ?thesis using Cons False by (simp add: Let_def)
  qed
qed

text \<open>
  C5, as the program has it. \<open>BOS\<close> is not the vocabulary size: the vocabulary size
  counts \<open>BOS\<close> itself.
\<close>

theorem BOS_vocabSize_counterexample:
  "BOS [''ab'', ''ca''] \<noteq> vocabSize [''ab'', ''ca'']"
  by (simp add: BOS_def vocabSize_def)

text \<open>
  C5, amended. The vocabulary size is \<open>BOS + 1\<close>; \<open>BOS\<close> is the number of distinct
  characters, so the id of every character of the documents is below \<open>BOS\<close>, and \<open>BOS\<close> is
  one past the id of the last character of \<open>uchars\<close>.
\<close>

theorem BOS_one_past_last:
  "vocabSize docs = BOS docs + 1 \<and>
   (\<forall>ch \<in> set (concat docs).
       0 \<le> indexOf (uchars docs) ch \<and> indexOf (uchars docs) ch < int (BOS docs)) \<and>
   (uchars docs \<noteq> [] \<longrightarrow> indexOf (uchars docs) (last (uchars docs)) + 1 = int (BOS docs))"
proof -
  have "distinct (uchars docs)" by (simp add: uchars_def)
  then show ?thesis
    using indexOf_last[of "uchars docs"] indexOf_range[of _ "uchars docs"]
    by (auto simp: BOS_def vocabSize_def) (auto simp: uchars_def)
qed

theorem BOS_one_past_last_witness:
  "vocabSize [''ab'', ''ca''] = 4 \<and> BOS [''ab'', ''ca''] = 3 \<and>
   CHR ''c'' \<in> set (concat [''ab'', ''ca'']) \<and>
   indexOf (uchars [''ab'', ''ca'']) CHR ''c'' < 3 \<and>
   uchars [''ab'', ''ca''] \<noteq> [] \<and>
   indexOf (uchars [''ab'', ''ca'']) (last (uchars [''ab'', ''ca''])) + 1 = 3"
  using BOS_one_past_last [of "[''ab'', ''ca'']"]
  by (simp add: BOS_def vocabSize_def uchars_def)

section \<open>Adam\<close>

lemma js_pow_nat: "js_pow x (real n) = Some (x ^ n)"
  by (cases "x < 0") (auto simp: js_pow_def powr_realpow)

lemma beta_pow: "0 < 1 - BETA1 ^ Suc n" "0 < 1 - BETA2 ^ Suc n"
  using power_Suc_less_one[of BETA1 n] power_Suc_less_one[of BETA2 n]
  by (simp_all add: BETA1_def BETA2_def)

text \<open>
  C4, as the program has it. At the last step, which is \<open>step = 999\<close> and \<open>t = 1000\<close>,
  the learning rate is not \<open>lr_0 * (1 - t / total_steps)\<close>, which is 0.
\<close>

theorem lrT_final_counterexample:
  "lrT 999 \<noteq> LEARNING_RATE * (1 - 1000 / real NUM_STEPS)"
  by (simp add: lrT_def LEARNING_RATE_def NUM_STEPS_def)

text \<open>
  C4, amended. With \<open>t = step + 1\<close> the step counted from 1, the update of a parameter
  subtracts \<open>lr * m_hat / (sqrt v_hat + EPS)\<close> where the learning rate is
  \<open>lr_0 * (1 - (t - 1) / total_steps)\<close>, and the moments are divided by \<open>1 - BETA1 ^ t\<close>
  and \<open>1 - BETA2 ^ t\<close>. The learning rate is \<open>lr_0\<close> at the first step and
  \<open>lr_0 / total_steps\<close>, not 0, at the last. The second moment, 0 at the start, is never
  negative, and so the square root is a real number.
\<close>

theorem adam_update_learning_rate:
  assumes "0 \<le> v ! i"
  shows "\<exists>u. adam_update step (p, i) (h, m, v) =
           Some ((h[p := (h ! p)\<lparr>data := data (h ! p) - u\<rparr>])
                   [p := (h[p := (h ! p)\<lparr>data := data (h ! p) - u\<rparr>] ! p)\<lparr>grad := 0\<rparr>],
                 m[i := BETA1 * (m ! i) + (1 - BETA1) * grad (h ! p)],
                 v[i := BETA2 * (v ! i) + (1 - BETA2) * grad (h ! p) ^ 2]) \<and>
         u = LEARNING_RATE * (1 - (real (Suc step) - 1) / real NUM_STEPS)
               * ((BETA1 * (m ! i) + (1 - BETA1) * grad (h ! p)) / (1 - BETA1 ^ Suc step))
               / (sqrt ((BETA2 * (v ! i) + (1 - BETA2) * grad (h ! p) ^ 2) / (1 - BETA2 ^ Suc step))
                  + EPS) \<and>
         0 \<le> BETA2 * (v ! i) + (1 - BETA2) * grad (h ! p) ^ 2 \<and>
         lrT 0 = LEARNING_RATE \<and> lrT (NUM_STEPS - 1) = LEARNING_RATE / real NUM_STEPS"
proof -
  let ?vi = "BETA2 * (v ! i) + (1 - BETA2) * grad (h ! p) ^ 2"
  have vi: "0 \<le> ?vi" using assms by (simp add: BETA2_def)
  have vh: "0 \<le> ?vi / (1 - BETA2 ^ Suc step)" using vi beta_pow(2)[of step] by simp
  have "0 < sqrt (?vi / (1 - BETA2 ^ Suc step)) + EPS"
    using vh by (simp add: EPS_def add_nonneg_pos)
  then have ne: "sqrt (?vi / (1 - BETA2 ^ Suc step)) + EPS \<noteq> 0" by simp
  have b1: "1 - BETA1 ^ Suc step \<noteq> 0" "1 - BETA2 ^ Suc step \<noteq> 0"
    using beta_pow[of step] by simp_all
  have nl: "\<not> ?vi / (1 - BETA2 ^ Suc step) < 0" using vh by simp
  have lr: "lrT 0 = LEARNING_RATE \<and> lrT (NUM_STEPS - 1) = LEARNING_RATE / real NUM_STEPS"
    by (simp add: lrT_def NUM_STEPS_def LEARNING_RATE_def)
  show ?thesis
    using b1 nl ne lr vi
    by (simp add: adam_update_def js_div_def js_sqrt_def Let_def lrT_def del: power_Suc)
qed

theorem adam_update_learning_rate_witness:
  "(0 :: real) \<le> [0] ! 0 \<and>
   (\<exists>u. adam_update 0 (0, 0) (ex_param, [0], [0]) =
       Some ([\<lparr>data = 1 - u, grad = 0, children = [], localGrads = []\<rparr>],
             [(1 - BETA1) * 2], [(1 - BETA2) * 4]) \<and>
     u = LEARNING_RATE * 2 / (2 + EPS))"
  using adam_update_learning_rate [of "[0]" 0 0 0 ex_param "[0]"]
  by (simp add: BETA1_def BETA2_def ex_param_def)

section \<open>The forward pass returns\<close>

lemma valid_prefix: "valid h xs \<Longrightarrow> prefix h h' \<Longrightarrow> valid h' xs"
  using prefix_length_le[of h h'] by (fastforce simp: valid_def)

lemma map_heap_ok:
  assumes step: "\<And>x h. x \<in> set xs \<Longrightarrow> prefix h0 h \<Longrightarrow>
             \<exists>y h'. f x h = Some (y, h') \<and> prefix h h' \<and> y < length h'"
  shows "\<exists>ys h'. map_heap f xs h0 = Some (ys, h') \<and> prefix h0 h' \<and> length ys = length xs \<and>
           valid h' ys"
  using step
proof (induction xs arbitrary: h0)
  case Nil
  then show ?case by (simp add: valid_def)
next
  case (Cons x xs)
  obtain y h1 where 1: "f x h0 = Some (y, h1)" "prefix h0 h1" "y < length h1"
    using Cons.prems[of x h0] by auto
  have "\<exists>ys h'. map_heap f xs h1 = Some (ys, h') \<and> prefix h1 h' \<and> length ys = length xs \<and> valid h' ys"
  proof (rule Cons.IH)
    fix x' h assume "x' \<in> set xs" "prefix h1 h"
    then show "\<exists>y h'. f x' h = Some (y, h') \<and> prefix h h' \<and> y < length h'"
      using Cons.prems[of x' h] 1(2) by auto
  qed
  then obtain ys h' where 2: "map_heap f xs h1 = Some (ys, h')" "prefix h1 h'" "length ys = length xs"
    "valid h' ys" by blast
  have "y < length h'" using 1(3) 2(2) prefix_length_le[of h1 h'] by simp
  then have "valid h' (y # ys)" using 2(4) by (simp add: valid_def)
  moreover have "prefix h0 h'" using 1(2) 2(2) by auto
  ultimately show ?case using 1(1) 2(1) 2(3) by simp
qed

lemma reduce_heap_inv:
  assumes init: "I acc0 h0"
    and step: "\<And>acc x h. x \<in> set xs \<Longrightarrow> prefix h0 h \<Longrightarrow> I acc h \<Longrightarrow>
             \<exists>acc' h'. f acc x h = Some (acc', h') \<and> prefix h h' \<and> I acc' h'"
  shows "\<exists>t h'. reduce_heap f xs acc0 h0 = Some (t, h') \<and> prefix h0 h' \<and> I t h'"
  using init step
proof (induction xs arbitrary: acc0 h0)
  case Nil
  then show ?case by simp
next
  case (Cons x xs)
  obtain acc1 h1 where 1: "f acc0 x h0 = Some (acc1, h1)" "prefix h0 h1" "I acc1 h1"
    using Cons.prems(2)[of x h0 acc0] Cons.prems(1) by auto
  have "\<exists>t h'. reduce_heap f xs acc1 h1 = Some (t, h') \<and> prefix h1 h' \<and> I t h'"
  proof (rule Cons.IH[OF 1(3)])
    fix acc x' h assume "x' \<in> set xs" "prefix h1 h" "I acc h"
    then show "\<exists>acc' h'. f acc x' h = Some (acc', h') \<and> prefix h h' \<and> I acc' h'"
      using Cons.prems(2)[of x' h acc] 1(2) by auto
  qed
  then obtain t h' where "reduce_heap f xs acc1 h1 = Some (t, h')" "prefix h1 h'" "I t h'" by blast
  then show ?case using 1(1,2) by auto
qed

lemma fold_opt_inv:
  assumes init: "I 0 s0"
    and step: "\<And>i s. i < length xs \<Longrightarrow> I i s \<Longrightarrow> \<exists>s'. f (xs ! i) s = Some s' \<and> I (Suc i) s'"
  shows "\<exists>s'. fold_opt f xs s0 = Some s' \<and> I (length xs) s'"
  using init step
proof (induction xs arbitrary: I s0)
  case Nil
  then show ?case by simp
next
  case (Cons x xs)
  obtain s1 where 1: "f x s0 = Some s1" "I (Suc 0) s1"
    using Cons.prems(2)[of 0 s0] Cons.prems(1) by auto
  have "\<exists>s'. fold_opt f xs s1 = Some s' \<and> (\<lambda>i. I (Suc i)) (length xs) s'"
  proof (rule Cons.IH)
    show "I (Suc 0) s1" by (rule 1(2))
  next
    fix i s assume "i < length xs" "I (Suc i) s"
    then show "\<exists>s'. f (xs ! i) s = Some s' \<and> I (Suc (Suc i)) s'"
      using Cons.prems(2)[of "Suc i" s] by auto
  qed
  then show ?case using 1(1) by simp
qed

lemma indexed_set: "(x, i) \<in> set (indexed xs) \<Longrightarrow> i < length xs \<and> x = xs ! i"
  by (auto simp: indexed_def set_zip)

lemma dot_step_ok:
  assumes "i < length x"
  shows "\<exists>acc' h'. dot_step x acc (wi, i) h = Some (acc', h') \<and> prefix h h' \<and> acc' < length h'"
  using assms by (simp add: dot_step_def at_idx_def mul_Value_Ref add_Value_Ref prefix_def)

lemma dot_ok:
  assumes "length row \<le> length x"
  shows "\<exists>t h'. (let (zero, h0) = new_Value 0 [] [] h in reduce_heap (dot_step x) (indexed row) zero h0) = Some (t, h')
           \<and> prefix h h' \<and> t < length h'"
proof -
  let ?h0 = "h @ [\<lparr>data = 0, grad = 0, children = [], localGrads = []\<rparr>]"
  have "\<exists>t h'. reduce_heap (dot_step x) (indexed row) (length h) ?h0 = Some (t, h') \<and> prefix ?h0 h' \<and> t < length h'"
  proof (rule reduce_heap_inv[where I = "\<lambda>acc h. acc < length h"])
    show "length h < length ?h0" by simp
  next
    fix acc wi_i h1 assume a: "wi_i \<in> set (indexed row)"
    obtain wi i where wi: "wi_i = (wi, i)" by (cases wi_i)
    then have "i < length x" using a assms indexed_set[of wi i row] by simp
    from dot_step_ok[OF this, of acc wi h1]
    show "\<exists>acc' h'. dot_step x acc wi_i h1 = Some (acc', h') \<and> prefix h1 h' \<and> acc' < length h'"
      by (simp add: wi)
  qed
  then obtain t h' where "reduce_heap (dot_step x) (indexed row) (length h) ?h0 = Some (t, h')"
    "prefix ?h0 h'" "t < length h'" by blast
  moreover from this have "prefix h h'" using append_prefixD by blast
  ultimately show ?thesis by (simp add: new_Value_def)
qed

lemma linear_ok:
  assumes "\<forall>row \<in> set w. length row \<le> length x"
  shows "\<exists>out h'. linear_layer x w h = Some (out, h') \<and> prefix h h' \<and> length out = length w \<and> valid h' out"
  unfolding linear_layer_def
  by (rule map_heap_ok) (use assms dot_ok in blast)

lemma add_residual_ok:
  assumes "length x \<le> length r"
  shows "\<exists>out h'. add_residual x r h = Some (out, h') \<and> prefix h h' \<and> length out = length x \<and> valid h' out"
proof -
  have "\<exists>out h'. add_residual x r h = Some (out, h') \<and> prefix h h' \<and> length out = length (indexed x) \<and> valid h' out"
    unfolding add_residual_def
  proof (rule map_heap_ok)
    fix a_i h1 assume a: "a_i \<in> set (indexed x)"
    obtain a i where ai: "a_i = (a, i)" by (cases a_i)
    then have "i < length r" using a assms indexed_set[of a i x] by simp
    then show "\<exists>y h'. (case a_i of (a, i) \<Rightarrow> \<lambda>h. do { ri \<leftarrow> at_idx r i; Some (add_Value a (Ref ri) h) }) h1 = Some (y, h') \<and> prefix h1 h' \<and> y < length h'"
      by (simp add: ai at_idx_def add_Value_Ref prefix_def)
  qed
  then show ?thesis by (simp add: indexed_def)
qed

lemma div_Value_Num_pos:
  assumes "0 < c" "t < length h"
  shows "\<exists>h'. div_Value t (Num c) h = Some (length h + 2, h') \<and> prefix h h' \<and>
           length h' = length h + 3 \<and> data (h' ! (length h + 2)) = data (h ! t) * (c powr (- 1))"
  using assms
  by (simp add: div_Value_def as_Value_def pow_Value_def js_pow_pos new_Value_def mul_Value_Ref
      nth_append prefix_def)

lemma squares_ok:
  "\<exists>t h'. reduce_heap (\<lambda>sum xi h. let (sq, h') = mul_Value xi (Ref xi) h in Some (add_Value sum (Ref sq) h'))
             x (length h) (h @ [\<lparr>data = 0, grad = 0, children = [], localGrads = []\<rparr>]) = Some (t, h') \<and>
          prefix (h @ [\<lparr>data = 0, grad = 0, children = [], localGrads = []\<rparr>]) h' \<and>
          (t < length h' \<and> 0 \<le> data (h' ! t))"
proof (rule reduce_heap_inv[where I = "\<lambda>acc h. acc < length h \<and> 0 \<le> data (h ! acc)"])
  show "length h < length (h @ [\<lparr>data = 0, grad = 0, children = [], localGrads = []\<rparr>]) \<and>
        0 \<le> data ((h @ [\<lparr>data = 0, grad = 0, children = [], localGrads = []\<rparr>]) ! length h)"
    by simp
next
  fix acc xi and h1 :: heap assume "acc < length h1 \<and> 0 \<le> data (h1 ! acc)"
  then show "\<exists>acc' h'. (let (sq, h') = mul_Value xi (Ref xi) h1 in Some (add_Value acc (Ref sq) h')) = Some (acc', h') \<and>
      prefix h1 h' \<and> acc' < length h' \<and> 0 \<le> data (h' ! acc')"
    by (simp add: mul_Value_Ref add_Value_Ref nth_append prefix_def)
qed

lemma rmsnorm_ok:
  assumes "x \<noteq> []"
  shows "\<exists>out h'. rmsnorm x h = Some (out, h') \<and> prefix h h' \<and> length out = length x \<and> valid h' out"
proof -
  let ?h0 = "h @ [\<lparr>data = 0, grad = 0, children = [], localGrads = []\<rparr>]"
  from squares_ok[of x h] obtain ss h1 where
    1: "reduce_heap (\<lambda>sum xi h. let (sq, h') = mul_Value xi (Ref xi) h in Some (add_Value sum (Ref sq) h'))
             x (length h) ?h0 = Some (ss, h1)" "prefix ?h0 h1" "ss < length h1" "0 \<le> data (h1 ! ss)"
    by blast
  have len: "0 < real (length x)" using assms by simp
  from div_Value_Num_pos[OF len 1(3)] obtain h2 where
    2: "div_Value ss (Num (real (length x))) h1 = Some (length h1 + 2, h2)" "prefix h1 h2"
       "length h2 = length h1 + 3" "data (h2 ! (length h1 + 2)) = data (h1 ! ss) * (real (length x) powr (- 1))"
    by blast
  have ms: "0 \<le> data (h2 ! (length h1 + 2))" using 2(4) 1(4) by simp
  let ?ms = "length h1 + 2"
  obtain e h3 where 3: "add_Value ?ms (Num (1 / 100000)) h2 = (e, h3)" by (cases "add_Value ?ms (Num (1 / 100000)) h2")
  have e3: "prefix h2 h3" "e < length h3" "0 < data (h3 ! e)"
    using 3 ms 2(3) by (auto simp: add_Value_def as_Value_def new_Value_def nth_append prefix_def)
  obtain h4 where 4: "pow_Value e (- (1 / 2)) h3 = Some (length h3, h4)" "prefix h3 h4" "length h4 = Suc (length h3)"
    using e3(3) by (simp add: pow_Value_def js_pow_pos new_Value_def prefix_def)
  have "\<exists>out h'. map_heap (\<lambda>xi h. Some (mul_Value xi (Ref (length h3)) h)) x h4 = Some (out, h') \<and> prefix h4 h' \<and> length out = length x \<and> valid h' out"
    by (rule map_heap_ok) (simp add: mul_Value_Ref prefix_def)
  then obtain out h' where 5: "map_heap (\<lambda>xi h. Some (mul_Value xi (Ref (length h3)) h)) x h4 = Some (out, h')"
    "prefix h4 h'" "length out = length x" "valid h' out" by blast
  have "rmsnorm x h = Some (out, h')"
    using 1(1) 2(1) 3 4(1) 5(1) by (simp add: rmsnorm_def new_Value_def)
  moreover have "prefix h h'"
    using 1(2) 2(2) e3(1) 4(2) 5(2) append_prefixD[of h _ h1] by (meson prefix_order.trans)
  ultimately show ?thesis using 5(3,4) by blast
qed

lemma dims: "0 < HEAD_DIM" "N_HEAD * HEAD_DIM = N_EMBD" "0 < N_EMBD"
  by (simp_all add: HEAD_DIM_def N_HEAD_def N_EMBD_def)

lemma head_slice:
  assumes "head < N_HEAD" "length xs = N_EMBD"
  shows "length (slice xs (head * HEAD_DIM) (head * HEAD_DIM + HEAD_DIM)) = HEAD_DIM"
proof -
  have "Suc head * HEAD_DIM \<le> N_HEAD * HEAD_DIM" using assms(1) by (intro mult_le_mono1) simp
  then have "head * HEAD_DIM + HEAD_DIM \<le> N_EMBD" using dims(2) by simp
  then show ?thesis using assms(2) by (simp add: slice_def)
qed

lemma dot_ok2:
  assumes "length row \<le> length x"
  shows "\<exists>t h'. reduce_heap (dot_step x) (indexed row) (length h)
             (h @ [\<lparr>data = 0, grad = 0, children = [], localGrads = []\<rparr>]) = Some (t, h')
           \<and> prefix h h' \<and> t < length h'"
  using dot_ok[OF assms, of h] by (simp add: new_Value_def)

lemma attn_logit_ok:
  assumes "length qH \<le> length kt"
  shows "\<exists>y h'. (let (zero, h0) = new_Value 0 [] [] h
            in do {
              (d, h') \<leftarrow> reduce_heap (dot_step kt) (indexed qH) zero h0;
              div_Value d (Num (sqrt (real HEAD_DIM))) h'
            }) = Some (y, h') \<and> prefix h h' \<and> y < length h'"
proof -
  from dot_ok2[OF assms, of h] obtain d h1 where
    1: "reduce_heap (dot_step kt) (indexed qH) (length h)
             (h @ [\<lparr>data = 0, grad = 0, children = [], localGrads = []\<rparr>]) = Some (d, h1)"
    "prefix h h1" "d < length h1" by blast
  have "0 < sqrt (real HEAD_DIM)" using dims(1) by simp
  from div_Value_Num_pos[OF this 1(3)] obtain h2 where
    2: "div_Value d (Num (sqrt (real HEAD_DIM))) h1 = Some (length h1 + 2, h2)" "prefix h1 h2"
       "length h2 = length h1 + 3" by blast
  have "prefix h h2" using 1(2) 2(2) by auto
  then show ?thesis using 1(1) 2(1,3) by (simp add: new_Value_def)
qed

lemma weighted_sum_ok:
  assumes "length ws \<le> length vH" "\<forall>vt \<in> set vH. j < length vt"
  shows "\<exists>s h'. reduce_heap (\<lambda>sum (w, t) h. do {
                             vt \<leftarrow> at_idx vH t;
                             vtj \<leftarrow> at_idx vt j;
                             let (p, h1) = mul_Value w (Ref vtj) h;
                             Some (add_Value sum (Ref p) h1)
                           }) (indexed ws) (length h)
             (h @ [\<lparr>data = 0, grad = 0, children = [], localGrads = []\<rparr>]) = Some (s, h')
           \<and> prefix h h' \<and> s < length h'"
proof -
  let ?h0 = "h @ [\<lparr>data = 0, grad = 0, children = [], localGrads = []\<rparr>]"
  let ?f = "\<lambda>sum (w, t) h. do {
                             vt \<leftarrow> at_idx vH t;
                             vtj \<leftarrow> at_idx vt j;
                             let (p, h1) = mul_Value w (Ref vtj) h;
                             Some (add_Value sum (Ref p) h1)
                           }"
  have "\<exists>t h'. reduce_heap ?f (indexed ws) (length h) ?h0 = Some (t, h') \<and> prefix ?h0 h' \<and> t < length h'"
  proof (rule reduce_heap_inv[where I = "\<lambda>acc h. acc < length h"])
    show "length h < length ?h0" by simp
  next
    fix acc w_t and h1 :: heap assume a: "w_t \<in> set (indexed ws)"
    obtain w t where wt: "w_t = (w, t)" by (cases w_t)
    then have t: "t < length vH" using a assms(1) indexed_set[of w t ws] by simp
    then have "j < length (vH ! t)" using assms(2) by simp
    then show "\<exists>acc' h'. ?f acc w_t h1 = Some (acc', h') \<and> prefix h1 h' \<and> acc' < length h'"
      using t by (simp add: wt at_idx_def mul_Value_Ref add_Value_Ref prefix_def)
  qed
  then obtain t h' where "reduce_heap ?f (indexed ws) (length h) ?h0 = Some (t, h')"
    "prefix ?h0 h'" "t < length h'" by blast
  moreover from this have "prefix h h'" using append_prefixD by blast
  ultimately show ?thesis by blast
qed

lemma softmax_ok:
  assumes "logits \<noteq> []" "valid h logits"
  shows "\<exists>out h'. softmax logits h = Some (out, h') \<and> prefix h h' \<and> length out = length logits \<and>
           valid h' out"
proof -
  from softmax_data[OF assms(1), of h] assms(2) obtain out h' where
    s: "softmax logits h = Some (out, h')" "prefix h h'" "length out = length logits"
    "\<forall>i < length logits. out ! i < length h' \<and>
        data (h' ! (out ! i)) = softmax_val (map (\<lambda>v. data (h ! v)) logits) i"
    unfolding valid_def by blast
  have "valid h' out" using s(3,4) by (auto simp: valid_def in_set_conv_nth)
  then show ?thesis using s(1,2,3) by blast
qed

lemma attn_head_ok:
  assumes q: "length q = N_EMBD"
    and ks: "keys_li \<noteq> []" "\<forall>kt \<in> set keys_li. length kt = N_EMBD"
    and vs: "length values_li = length keys_li" "\<forall>vt \<in> set values_li. length vt = N_EMBD"
    and hd: "head < N_HEAD"
  shows "\<exists>xAttn' h'. attn_head q keys_li values_li head (xAttn, h) = Some (xAttn', h') \<and>
           prefix h h' \<and> length xAttn' = length xAttn + HEAD_DIM \<and>
           (valid h xAttn \<longrightarrow> valid h' xAttn')"
proof -
  define hs where "hs = head * HEAD_DIM"
  define qH where "qH = slice q hs (hs + HEAD_DIM)"
  define kH where "kH = map (\<lambda>ki. slice ki hs (hs + HEAD_DIM)) keys_li"
  define vH where "vH = map (\<lambda>vi. slice vi hs (hs + HEAD_DIM)) values_li"
  have lq: "length qH = HEAD_DIM" unfolding qH_def hs_def using hd q by (rule head_slice)
  have lk: "\<forall>kt \<in> set kH. length kt = HEAD_DIM"
    unfolding kH_def hs_def using hd ks(2) by (auto intro: head_slice)
  have lv: "\<forall>vt \<in> set vH. length vt = HEAD_DIM"
    unfolding vH_def hs_def using hd vs(2) by (auto intro: head_slice)
  let ?logit = "\<lambda>kt h. let (zero, h0) = new_Value 0 [] [] h
            in do {
              (d, h') \<leftarrow> reduce_heap (dot_step kt) (indexed qH) zero h0;
              div_Value d (Num (sqrt (real HEAD_DIM))) h'
            }"
  have "\<exists>ys h'. map_heap ?logit kH h = Some (ys, h') \<and> prefix h h' \<and> length ys = length kH \<and> valid h' ys"
  proof (rule map_heap_ok)
    fix kt h1 assume "kt \<in> set kH"
    then have "length qH \<le> length kt" using lq lk by simp
    then show "\<exists>y h'. ?logit kt h1 = Some (y, h') \<and> prefix h1 h' \<and> y < length h'"
      by (rule attn_logit_ok)
  qed
  then obtain attnLogits h1 where
    1: "map_heap ?logit kH h = Some (attnLogits, h1)" "prefix h h1" "length attnLogits = length kH"
       "valid h1 attnLogits" by blast
  have ne: "attnLogits \<noteq> []" using 1(3) ks(1) by (auto simp: kH_def)
  from softmax_ok[OF ne 1(4)] obtain attnWeights h2 where
    2: "softmax attnLogits h1 = Some (attnWeights, h2)" "prefix h1 h2"
       "length attnWeights = length attnLogits" by blast
  have lw: "length attnWeights \<le> length vH" using 2(3) 1(3) vs(1) by (simp add: kH_def vH_def)
  let ?push = "\<lambda>j (xAttn, h).
            let (zero, h0) = new_Value 0 [] [] h
            in do {
              (s, h') \<leftarrow> reduce_heap (\<lambda>sum (w, t) h. do {
                             vt \<leftarrow> at_idx vH t;
                             vtj \<leftarrow> at_idx vt j;
                             let (p, h1) = mul_Value w (Ref vtj) h;
                             Some (add_Value sum (Ref p) h1)
                           }) (indexed attnWeights) zero h0;
              Some (xAttn @ [s], h')
            }"
  let ?I = "\<lambda>j (s :: ref list \<times> heap). prefix h2 (snd s) \<and> length (fst s) = length xAttn + j \<and>
               (valid h xAttn \<longrightarrow> valid (snd s) (fst s))"
  have "\<exists>s'. fold_opt ?push [0..<HEAD_DIM] (xAttn, h2) = Some s' \<and> ?I (length [0..<HEAD_DIM]) s'"
  proof (rule fold_opt_inv[where I = ?I])
    have "prefix h h2" using 1(2) 2(2) by auto
    then show "?I 0 (xAttn, h2)" by (auto intro: valid_prefix)
  next
    fix j s assume j: "j < length [0..<HEAD_DIM]" and I: "?I j s"
    obtain xA hA where s: "s = (xA, hA)" by (cases s)
    have "\<forall>vt \<in> set vH. j < length vt" using lv j by simp
    from weighted_sum_ok[OF lw this, of hA] obtain r h' where
      r: "reduce_heap (\<lambda>sum (w, t) h. do {
                             vt \<leftarrow> at_idx vH t;
                             vtj \<leftarrow> at_idx vt j;
                             let (p, h1) = mul_Value w (Ref vtj) h;
                             Some (add_Value sum (Ref p) h1)
                           }) (indexed attnWeights) (length hA)
             (hA @ [\<lparr>data = 0, grad = 0, children = [], localGrads = []\<rparr>]) = Some (r, h')"
        "prefix hA h'" "r < length h'" by blast
    have "?push ([0..<HEAD_DIM] ! j) s = Some (xA @ [r], h')"
      using r(1) j by (simp add: s new_Value_def)
    moreover have "?I (Suc j) (xA @ [r], h')"
    proof -
      have "valid hA xA \<Longrightarrow> valid h' (xA @ [r])"
        using valid_prefix[OF _ r(2), of xA] r(3) by (simp add: valid_def)
      then show ?thesis using I r(2) by (auto simp: s)
    qed
    ultimately show "\<exists>s'. ?push ([0..<HEAD_DIM] ! j) s = Some s' \<and> ?I (Suc j) s'" by blast
  qed
  then obtain xAttn' h' where
    3: "fold_opt ?push [0..<HEAD_DIM] (xAttn, h2) = Some (xAttn', h')" "prefix h2 h'"
       "length xAttn' = length xAttn + HEAD_DIM" "valid h xAttn \<longrightarrow> valid h' xAttn'"
    by auto
  have "attn_head q keys_li values_li head (xAttn, h) = Some (xAttn', h')"
    using 1(1) 2(1) 3(1)
    by (simp add: attn_head_def Let_def hs_def[symmetric] qH_def[symmetric] kH_def[symmetric] vH_def[symmetric])
  moreover have "prefix h h'" using 1(2) 2(2) 3(2) by auto
  ultimately show ?thesis using 3(3,4) by blast
qed

lemma has_shapeD:
  assumes "has_shape sd k nout nin"
  obtains w where "sd k = Some w" "length w = nout" "\<forall>row \<in> set w. length row = nin"
  using assms by (auto simp: has_shape_def matrix_ok_def list_all_iff split: option.splits)

lemma linear_shape:
  assumes "has_shape sd k nout nin" "nin \<le> length x"
  obtains w out h' where "sd k = Some w" "linear_layer x w h = Some (out, h')" "prefix h h'"
    "length out = nout" "valid h' out"
proof -
  from assms(1) obtain w where w: "sd k = Some w" "length w = nout" "\<forall>row \<in> set w. length row = nin"
    by (rule has_shapeD)
  have "\<forall>row \<in> set w. length row \<le> length x" using w(3) assms(2) by simp
  from linear_ok[OF this, of h] w(1,2) that show ?thesis by auto
qed

lemma gpt_layer_ok:
  assumes sd: "sd_ok sd V" and li: "li < N_LAYER" and x: "length x = N_EMBD"
    and lk: "length keys = N_LAYER" and lv: "length values = N_LAYER"
    and ck: "cache_at keys li n" and cv: "cache_at values li n"
  shows "\<exists>x' h' kv vv. gpt_layer sd li (x, h, keys, values)
             = Some (x', h', keys[li := keys ! li @ [kv]], values[li := values ! li @ [vv]]) \<and>
           prefix h h' \<and> length x' = N_EMBD \<and> length kv = N_EMBD \<and> length vv = N_EMBD"
proof -
  have sh: "has_shape sd (attn_wq li) N_EMBD N_EMBD" "has_shape sd (attn_wk li) N_EMBD N_EMBD"
    "has_shape sd (attn_wv li) N_EMBD N_EMBD" "has_shape sd (attn_wo li) N_EMBD N_EMBD"
    "has_shape sd (mlp_fc1 li) (4 * N_EMBD) N_EMBD" "has_shape sd (mlp_fc2 li) N_EMBD (4 * N_EMBD)"
    using sd li by (auto simp: sd_ok_def list_all_iff)
  have xne: "x \<noteq> []" using x dims(3) by auto
  from rmsnorm_ok[OF xne, of h] obtain x1 h1 where
    1: "rmsnorm x h = Some (x1, h1)" "prefix h h1" "length x1 = length x" by blast
  have l1: "N_EMBD \<le> length x1" using 1(3) x by simp
  from linear_shape[OF sh(1) l1, of h1] obtain wq q h2 where
    2: "sd (attn_wq li) = Some wq" "linear_layer x1 wq h1 = Some (q, h2)" "prefix h1 h2" "length q = N_EMBD"
    by metis
  from linear_shape[OF sh(2) l1, of h2] obtain wk k h3 where
    3: "sd (attn_wk li) = Some wk" "linear_layer x1 wk h2 = Some (k, h3)" "prefix h2 h3" "length k = N_EMBD"
    by metis
  from linear_shape[OF sh(3) l1, of h3] obtain wv v h4 where
    4: "sd (attn_wv li) = Some wv" "linear_layer x1 wv h3 = Some (v, h4)" "prefix h3 h4" "length v = N_EMBD"
    by metis
  define keys1 where "keys1 = keys[li := keys ! li @ [k]]"
  define values1 where "values1 = values[li := values ! li @ [v]]"
  have k1: "keys1 ! li = keys ! li @ [k]" "values1 ! li = values ! li @ [v]"
    using li lk lv by (simp_all add: keys1_def values1_def)
  have kne: "keys1 ! li \<noteq> []" "\<forall>kt \<in> set (keys1 ! li). length kt = N_EMBD"
    "length (values1 ! li) = length (keys1 ! li)" "\<forall>vt \<in> set (values1 ! li). length vt = N_EMBD"
    using ck cv 3(4) 4(4) by (auto simp: k1 cache_at_def list_all_iff)
  let ?I = "\<lambda>i (s :: ref list \<times> heap). prefix h4 (snd s) \<and> length (fst s) = i * HEAD_DIM"
  have "\<exists>s'. fold_opt (attn_head q (keys1 ! li) (values1 ! li)) [0..<N_HEAD] ([], h4) = Some s' \<and>
           ?I (length [0..<N_HEAD]) s'"
  proof (rule fold_opt_inv[where I = ?I])
    show "?I 0 ([], h4)" by simp
  next
    fix i s assume i: "i < length [0..<N_HEAD]" and I: "?I i s"
    obtain xA hA where s: "s = (xA, hA)" by (cases s)
    have "i < N_HEAD" using i by simp
    from attn_head_ok[OF 2(4) kne this, of xA hA] obtain xA' hA' where
      "attn_head q (keys1 ! li) (values1 ! li) i (xA, hA) = Some (xA', hA')" "prefix hA hA'"
      "length xA' = length xA + HEAD_DIM" by blast
    then show "\<exists>s'. attn_head q (keys1 ! li) (values1 ! li) ([0..<N_HEAD] ! i) s = Some s' \<and> ?I (Suc i) s'"
      using I i by (auto simp: s)
  qed
  then obtain xAttn h5 where
    5: "fold_opt (attn_head q (keys1 ! li) (values1 ! li)) [0..<N_HEAD] ([], h4) = Some (xAttn, h5)"
       "prefix h4 h5" "length xAttn = N_EMBD"
    using dims(2) by auto
  have l5: "N_EMBD \<le> length xAttn" using 5(3) by simp
  from linear_shape[OF sh(4) l5, of h5] obtain wo x2 h6 where
    6: "sd (attn_wo li) = Some wo" "linear_layer xAttn wo h5 = Some (x2, h6)" "prefix h5 h6" "length x2 = N_EMBD"
    by metis
  have "length x2 \<le> length x" using 6(4) x by simp
  from add_residual_ok[OF this, of h6] obtain x3 h7 where
    7: "add_residual x2 x h6 = Some (x3, h7)" "prefix h6 h7" "length x3 = N_EMBD"
    using 6(4) by auto
  have x3ne: "x3 \<noteq> []" using 7(3) dims(3) by auto
  from rmsnorm_ok[OF x3ne, of h7] obtain x4 h8 where
    8: "rmsnorm x3 h7 = Some (x4, h8)" "prefix h7 h8" "length x4 = N_EMBD" using 7(3) by auto
  have l8: "N_EMBD \<le> length x4" using 8(3) by simp
  from linear_shape[OF sh(5) l8, of h8] obtain fc1 x5 h9 where
    9: "sd (mlp_fc1 li) = Some fc1" "linear_layer x4 fc1 h8 = Some (x5, h9)" "prefix h8 h9" "length x5 = 4 * N_EMBD"
    by metis
  have "\<exists>ys h'. map_heap (\<lambda>xi h. Some (relu xi h)) x5 h9 = Some (ys, h') \<and> prefix h9 h' \<and>
          length ys = length x5 \<and> valid h' ys"
    by (rule map_heap_ok) (simp add: relu_def new_Value_def prefix_def)
  then obtain x6 h10 where
    10: "map_heap (\<lambda>xi h. Some (relu xi h)) x5 h9 = Some (x6, h10)" "prefix h9 h10" "length x6 = 4 * N_EMBD"
    using 9(4) by auto
  have l10: "4 * N_EMBD \<le> length x6" using 10(3) by simp
  from linear_shape[OF sh(6) l10, of h10] obtain fc2 x7 h11 where
    11: "sd (mlp_fc2 li) = Some fc2" "linear_layer x6 fc2 h10 = Some (x7, h11)" "prefix h10 h11" "length x7 = N_EMBD"
    by metis
  have "length x7 \<le> length x3" using 11(4) 7(3) by simp
  from add_residual_ok[OF this, of h11] obtain x8 h12 where
    12: "add_residual x7 x3 h11 = Some (x8, h12)" "prefix h11 h12" "length x8 = N_EMBD"
    using 11(4) by auto
  have "gpt_layer sd li (x, h, keys, values) = Some (x8, h12, keys1, values1)"
    using 1(1) 2(1,2) 3(1,2) 4(1,2) 5(1)[unfolded k1] 6(1,2) 7(1) 8(1) 9(1,2) 10(1) 11(1,2) 12(1) li lk lv
    by (simp add: gpt_layer_def at_idx_def keys1_def[symmetric] values1_def[symmetric])
  moreover have "prefix h h12"
    using 1(2) 2(3) 3(3) 4(3) 5(2) 6(3) 7(2) 8(2) 9(3) 10(2) 11(3) 12(2)
    by (meson prefix_order.trans)
  ultimately show ?thesis using 12(3) 3(4) 4(4) unfolding keys1_def values1_def by blast
qed

lemma cache_okD:
  "cache_ok c n \<Longrightarrow> length c = N_LAYER"
  "cache_ok c n \<Longrightarrow> li < N_LAYER \<Longrightarrow> cache_at c li n"
  by (auto simp: cache_ok_def list_all_iff)

lemma cache_at_push:
  assumes "cache_at c li n" "li < length c" "length vec = N_EMBD"
  shows "cache_at (c[li := c ! li @ [vec]]) li (Suc n)"
  using assms by (simp add: cache_at_def)

lemma cache_at_other:
  assumes "cache_at c j n" "j \<noteq> li"
  shows "cache_at (c[li := e]) j n"
  using assms by (simp add: cache_at_def)

lemma embed_ok:
  assumes "posId < length wpe_m" "length tokEmb \<le> length (wpe_m ! posId)"
  shows "\<exists>x h'. map_heap (\<lambda>(t, i) h. do {
                       posEmb \<leftarrow> at_idx wpe_m posId;
                       p \<leftarrow> at_idx posEmb i;
                       Some (add_Value t (Ref p) h)
                     }) (indexed tokEmb) h = Some (x, h') \<and> prefix h h' \<and> length x = length tokEmb"
proof -
  let ?f = "\<lambda>(t, i) h. do {
                       posEmb \<leftarrow> at_idx wpe_m posId;
                       p \<leftarrow> at_idx posEmb i;
                       Some (add_Value t (Ref p) h)
                     }"
  have "\<exists>x h'. map_heap ?f (indexed tokEmb) h = Some (x, h') \<and> prefix h h' \<and>
          length x = length (indexed tokEmb) \<and> valid h' x"
  proof (rule map_heap_ok)
    fix t_i and h1 :: heap assume a: "t_i \<in> set (indexed tokEmb)"
    obtain t i where ti: "t_i = (t, i)" by (cases t_i)
    then have "i < length (wpe_m ! posId)" using a assms(2) indexed_set[of t i tokEmb] by simp
    then show "\<exists>y h'. ?f t_i h1 = Some (y, h') \<and> prefix h1 h' \<and> y < length h'"
      using assms(1) by (simp add: ti at_idx_def add_Value_Ref prefix_def)
  qed
  then show ?thesis by (auto simp: indexed_def)
qed

lemma gpt_ok:
  assumes sd: "sd_ok sd V" and tok: "0 \<le> tokenId" "tokenId < int V" and pos: "posId < BLOCK_SIZE"
    and ck: "cache_ok keys n" and cv: "cache_ok values n"
  shows "\<exists>logits h' keys' values'. gpt sd tokenId posId keys values h = Some (logits, h', keys', values') \<and>
           prefix h h' \<and> length logits = V \<and> valid h' logits \<and>
           cache_ok keys' (Suc n) \<and> cache_ok values' (Suc n) \<and>
           (\<forall>li < N_LAYER. (\<exists>kv. keys' ! li = keys ! li @ [kv]) \<and>
                           (\<exists>vv. values' ! li = values ! li @ [vv]))"
proof -
  from sd obtain wte_m where wte: "sd wte = Some wte_m" "length wte_m = V" "\<forall>row \<in> set wte_m. length row = N_EMBD"
    unfolding sd_ok_def by (auto elim: has_shapeD)
  from sd obtain wpe_m where wpe: "sd wpe = Some wpe_m" "length wpe_m = BLOCK_SIZE"
      "\<forall>row \<in> set wpe_m. length row = N_EMBD"
    unfolding sd_ok_def by (auto elim: has_shapeD)
  have lm: "has_shape sd lm_head V N_EMBD" using sd by (simp add: sd_ok_def)
  define tokEmb where "tokEmb = wte_m ! nat tokenId"
  have te: "at_int wte_m tokenId = Some tokEmb" "length tokEmb = N_EMBD"
    using tok wte(2,3) by (auto simp: at_int_def tokEmb_def)
  have "posId < length wpe_m" "length tokEmb \<le> length (wpe_m ! posId)"
    using pos wpe(2,3) te(2) by auto
  from embed_ok[OF this, of h] obtain x h1 where
    1: "map_heap (\<lambda>(t, i) h. do {
                       posEmb \<leftarrow> at_idx wpe_m posId;
                       p \<leftarrow> at_idx posEmb i;
                       Some (add_Value t (Ref p) h)
                     }) (indexed tokEmb) h = Some (x, h1)" "prefix h h1" "length x = N_EMBD"
    using te(2) by auto
  have xne: "x \<noteq> []" using 1(3) dims(3) by auto
  from rmsnorm_ok[OF xne, of h1] obtain x1 h2 where
    2: "rmsnorm x h1 = Some (x1, h2)" "prefix h1 h2" "length x1 = N_EMBD" using 1(3) by auto
  let ?I = "\<lambda>i (s :: ref list \<times> heap \<times> cache \<times> cache).
      case s of (x, h', ks, vs) \<Rightarrow> prefix h2 h' \<and> length x = N_EMBD \<and>
        length ks = N_LAYER \<and> length vs = N_LAYER \<and>
        (\<forall>li < N_LAYER. cache_at ks li (if li < i then Suc n else n) \<and>
                        cache_at vs li (if li < i then Suc n else n) \<and>
                        (if li < i then (\<exists>kv. ks ! li = keys ! li @ [kv]) \<and> (\<exists>vv. vs ! li = values ! li @ [vv])
                         else ks ! li = keys ! li \<and> vs ! li = values ! li))"
  have "\<exists>s'. fold_opt (gpt_layer sd) [0..<N_LAYER] (x1, h2, keys, values) = Some s' \<and>
          ?I (length [0..<N_LAYER]) s'"
  proof (rule fold_opt_inv[where I = ?I])
    show "?I 0 (x1, h2, keys, values)"
      using 2(3) ck cv by (auto simp: cache_okD)
  next
    fix i s assume i: "i < length [0..<N_LAYER]" and I: "?I i s"
    obtain xa ha ks vs where s: "s = (xa, ha, ks, vs)" by (cases s)
    have iN: "i < N_LAYER" using i by simp
    have Is: "prefix h2 ha" "length xa = N_EMBD" "length ks = N_LAYER" "length vs = N_LAYER"
      "\<forall>li < N_LAYER. cache_at ks li (if li < i then Suc n else n) \<and>
                        cache_at vs li (if li < i then Suc n else n) \<and>
                        (if li < i then (\<exists>kv. ks ! li = keys ! li @ [kv]) \<and> (\<exists>vv. vs ! li = values ! li @ [vv])
                         else ks ! li = keys ! li \<and> vs ! li = values ! li)"
      using I by (auto simp: s)
    have same: "ks ! i = keys ! i" "vs ! i = values ! i" using Is(5) iN by auto
    have ci: "cache_at ks i n" "cache_at vs i n" using Is(5) iN by auto
    from gpt_layer_ok[OF sd iN Is(2,3,4) ci, of ha] obtain x' h' kv vv where
      g: "gpt_layer sd i (xa, ha, ks, vs) = Some (x', h', ks[i := ks ! i @ [kv]], vs[i := vs ! i @ [vv]])"
      "prefix ha h'" "length x' = N_EMBD" "length kv = N_EMBD" "length vv = N_EMBD" by blast
    let ?ks = "ks[i := ks ! i @ [kv]]" and ?vs = "vs[i := vs ! i @ [vv]]"
    have "\<forall>li < N_LAYER. cache_at ?ks li (if li < Suc i then Suc n else n) \<and>
                        cache_at ?vs li (if li < Suc i then Suc n else n) \<and>
                        (if li < Suc i then (\<exists>kv. ?ks ! li = keys ! li @ [kv]) \<and> (\<exists>vv. ?vs ! li = values ! li @ [vv])
                         else ?ks ! li = keys ! li \<and> ?vs ! li = values ! li)"
    proof (intro allI impI)
      fix li assume l: "li < N_LAYER"
      show "cache_at ?ks li (if li < Suc i then Suc n else n) \<and>
                        cache_at ?vs li (if li < Suc i then Suc n else n) \<and>
                        (if li < Suc i then (\<exists>kv. ?ks ! li = keys ! li @ [kv]) \<and> (\<exists>vv. ?vs ! li = values ! li @ [vv])
                         else ?ks ! li = keys ! li \<and> ?vs ! li = values ! li)"
      proof (cases "li = i")
        case True
        have "cache_at ?ks i (Suc n)" "cache_at ?vs i (Suc n)"
          using ci g(4,5) iN Is(3,4) by (simp_all add: cache_at_push)
        moreover have "?ks ! i = keys ! i @ [kv]" "?vs ! i = values ! i @ [vv]"
          using iN Is(3,4) same by simp_all
        ultimately show ?thesis using True by auto
      next
        case False
        then have "(li < Suc i) = (li < i)" by auto
        then show ?thesis using Is(5) l False by (simp add: cache_at_other)
      qed
    qed
    then have J: "?I (Suc i) (x', h', ?ks, ?vs)"
      using Is(1,3,4) g(2,3) by auto
    have "gpt_layer sd ([0..<N_LAYER] ! i) s = Some (x', h', ?ks, ?vs)"
      using g(1) iN by (simp add: s)
    with J show "\<exists>s'. gpt_layer sd ([0..<N_LAYER] ! i) s = Some s' \<and> ?I (Suc i) s'"
      by blast
  qed
  then obtain x2 h3 keys1 values1 where
    3: "fold_opt (gpt_layer sd) [0..<N_LAYER] (x1, h2, keys, values) = Some (x2, h3, keys1, values1)"
       "prefix h2 h3" "length x2 = N_EMBD" "length keys1 = N_LAYER" "length values1 = N_LAYER"
       "\<forall>li < N_LAYER. cache_at keys1 li (Suc n) \<and> cache_at values1 li (Suc n) \<and>
           (\<exists>kv. keys1 ! li = keys ! li @ [kv]) \<and> (\<exists>vv. values1 ! li = values ! li @ [vv])"
    by auto
  have l3: "N_EMBD \<le> length x2" using 3(3) by simp
  from linear_shape[OF lm l3, of h3] obtain w logits h4 where
    4: "sd lm_head = Some w" "linear_layer x2 w h3 = Some (logits, h4)" "prefix h3 h4" "length logits = V"
       "valid h4 logits" by metis
  have "gpt sd tokenId posId keys values h = Some (logits, h4, keys1, values1)"
    using wte(1) te(1) wpe(1) 1(1) 2(1) 3(1) 4(1,2) by (simp add: gpt_def)
  moreover have "prefix h h4" using 1(2) 2(2) 3(2) 4(3) by (meson prefix_order.trans)
  moreover have "cache_ok keys1 (Suc n)" "cache_ok values1 (Suc n)"
    using 3(4,5,6) by (auto simp: cache_ok_def list_all_iff)
  ultimately show ?thesis using 4(4,5) 3(6) by blast
qed

lemma cache_ok_fresh: "cache_ok fresh_cache 0"
  by (simp add: cache_ok_def fresh_cache_def cache_at_def list_all_iff)

lemma cache_ok_length: "cache_ok c n \<Longrightarrow> li < N_LAYER \<Longrightarrow> length (c ! li) = n"
  by (simp add: cache_ok_def cache_at_def list_all_iff)

lemma forward_positions_ok:
  assumes "sd_ok sd V" "list_all (\<lambda>t. 0 \<le> t \<and> t < int V) toks" "pos + length toks \<le> BLOCK_SIZE"
    "cache_ok keys n" "cache_ok values n"
  shows "length (forward_positions sd toks pos (h, keys, values)) = length toks \<and>
         (\<forall>j < length toks. case forward_positions sd toks pos (h, keys, values) ! j of
             (logits, h', ks, vs) \<Rightarrow> cache_ok ks (n + j + 1) \<and> cache_ok vs (n + j + 1) \<and> length logits = V)"
  using assms(2-)
proof (induction toks arbitrary: pos h keys "values" n)
  case Nil
  then show ?case by simp
next
  case (Cons tok toks)
  have t: "0 \<le> tok" "tok < int V" "pos < BLOCK_SIZE" using Cons.prems by auto
  from gpt_ok[OF assms(1) t Cons.prems(3,4), of h] obtain logits h' keys' values' where
    g: "gpt sd tok pos keys values h = Some (logits, h', keys', values')" "length logits = V"
       "cache_ok keys' (Suc n)" "cache_ok values' (Suc n)" by blast
  have "list_all (\<lambda>t. 0 \<le> t \<and> t < int V) toks" "Suc pos + length toks \<le> BLOCK_SIZE"
    using Cons.prems by auto
  from Cons.IH[OF this g(3,4), of h']
  have ih: "length (forward_positions sd toks (Suc pos) (h', keys', values')) = length toks"
    "\<forall>j < length toks. case forward_positions sd toks (Suc pos) (h', keys', values') ! j of
             (logits, h', ks, vs) \<Rightarrow> cache_ok ks (Suc n + j + 1) \<and> cache_ok vs (Suc n + j + 1) \<and> length logits = V"
    by auto
  show ?case using g ih by (auto simp: nth_Cons split: nat.splits)
qed

lemma forward_positions_take:
  "take p (forward_positions sd toks pos st) = forward_positions sd (take p toks) pos st"
proof (induction toks arbitrary: p pos st)
  case Nil
  then show ?case by simp
next
  case (Cons tok toks)
  obtain h keys "values" where st: "st = (h, keys, values)" by (cases st)
  show ?case
  proof (cases p)
    case 0
    then show ?thesis by simp
  next
    case (Suc p')
    then show ?thesis using Cons.IH by (auto simp: st split: option.splits)
  qed
qed

lemma gpt_call:
  assumes "sd_ok sd V" "0 \<le> tok" "tok < int V" "pos < BLOCK_SIZE" "cache_ok keys n" "cache_ok values n"
  shows "\<exists>logits h' keys' values'. gpt sd tok pos keys values h = Some (logits, h', keys', values') \<and>
        (\<forall>li < N_LAYER. (\<exists>kv. keys' ! li = keys ! li @ [kv]) \<and> (\<exists>vv. values' ! li = values ! li @ [vv]))"
proof -
  from gpt_ok[OF assms, of h] obtain logits h' keys' values' where
    "gpt sd tok pos keys values h = Some (logits, h', keys', values')"
    "\<forall>li < N_LAYER. (\<exists>kv. keys' ! li = keys ! li @ [kv]) \<and> (\<exists>vv. values' ! li = values ! li @ [vv])"
    by blast
  then show ?thesis by blast
qed

section \<open>The training loss\<close>

lemma fold_opt_snoc:
  "fold_opt f (xs @ [x]) s = (case fold_opt f xs s of None \<Rightarrow> None | Some s' \<Rightarrow> f x s')"
  by (induction xs arbitrary: s) (auto split: option.splits)

lemma position_loss_ok:
  assumes sd: "sd_ok sd V" and toks: "list_all (\<lambda>t. 0 \<le> t \<and> t < int V) tokens"
    and pos: "Suc pos < length tokens" "pos < BLOCK_SIZE"
    and ck: "cache_ok keys n" and cv: "cache_ok values n"
  shows "\<exists>logits h1 keys1 values1 probs h2 nl h4.
           gpt sd (tokens ! pos) pos keys values h = Some (logits, h1, keys1, values1) \<and>
           softmax logits h1 = Some (probs, h2) \<and>
           position_loss sd tokens pos (h, keys, values, losses) = Some (h4, keys1, values1, losses @ [nl]) \<and>
           prefix h h4 \<and> nl < length h4 \<and> nat (tokens ! Suc pos) < length probs \<and>
           data (h4 ! nl) = - ln (data (h2 ! (probs ! nat (tokens ! Suc pos)))) \<and>
           cache_ok keys1 (Suc n) \<and> cache_ok values1 (Suc n)"
proof -
  have t: "0 \<le> tokens ! pos" "tokens ! pos < int V" "0 \<le> tokens ! Suc pos" "tokens ! Suc pos < int V"
    using toks pos(1) by (auto simp: list_all_length)
  from gpt_ok[OF sd t(1,2) pos(2) ck cv, of h] obtain logits h1 keys1 values1 where
    g: "gpt sd (tokens ! pos) pos keys values h = Some (logits, h1, keys1, values1)" "prefix h h1"
       "length logits = V" "valid h1 logits" "cache_ok keys1 (Suc n)" "cache_ok values1 (Suc n)"
    by blast
  have ne: "logits \<noteq> []" using g(3) t(1,2) by auto
  have vl: "\<forall>v \<in> set logits. v < length h1" using g(4) by (simp add: valid_def)
  from softmax_data[OF ne vl] obtain probs h2 where
    s: "softmax logits h1 = Some (probs, h2)" "prefix h1 h2" "length probs = length logits"
       "\<forall>i < length logits. probs ! i < length h2 \<and>
            data (h2 ! (probs ! i)) = softmax_val (map (\<lambda>v. data (h1 ! v)) logits) i" by blast
  define tg where "tg = nat (tokens ! Suc pos)"
  have tg: "tg < length logits" using t(3,4) g(3) by (simp add: tg_def)
  have p: "probs ! tg < length h2" "0 < data (h2 ! (probs ! tg))"
    using s(4) tg softmax_val_pos[of tg "map (\<lambda>v. data (h1 ! v)) logits"] by auto
  have ai: "at_int probs (tokens ! Suc pos) = Some (probs ! tg)"
    using t(3) tg s(3) by (simp add: at_int_def tg_def)
  define h3 where "h3 = h2 @ [\<lparr>data = ln (data (h2 ! (probs ! tg))), grad = 0, children = [probs ! tg],
      localGrads = [1 / data (h2 ! (probs ! tg))]\<rparr>]"
  have lg: "log_Value (probs ! tg) h2 = Some (length h2, h3)"
    using p(2) by (simp add: log_Value_def js_log_def new_Value_def h3_def)
  obtain nl h4 where ng: "neg (length h2) h3 = (nl, h4)" by (cases "neg (length h2) h3")
  have n4: "prefix h3 h4" "nl < length h4" "data (h4 ! nl) = - ln (data (h2 ! (probs ! tg)))"
    using ng by (auto simp: neg_def mul_Value_def as_Value_def new_Value_def h3_def nth_append prefix_def)
  have "position_loss sd tokens pos (h, keys, values, losses) = Some (h4, keys1, values1, losses @ [nl])"
    using g(1) s(1) ai lg ng pos(1) by (simp add: position_loss_def at_idx_def)
  moreover have "prefix h h4"
    using g(2) s(2) n4(1) by (auto simp: h3_def dest: append_prefixD)
  moreover have "nat (tokens ! Suc pos) < length probs" using tg s(3) by (simp add: tg_def)
  ultimately show ?thesis using g(1,5,6) s(1) n4(2,3) unfolding tg_def by blast
qed

lemma loss_loop:
  assumes sd: "sd_ok sd V" and toks: "list_all (\<lambda>t. 0 \<le> t \<and> t < int V) tokens"
    and i: "i \<le> BLOCK_SIZE" "i < length tokens"
  shows "\<exists>hi ks vs ls. fold_opt (position_loss sd tokens) [0..<i] (h, fresh_cache, fresh_cache, [])
            = Some (hi, ks, vs, ls) \<and>
          prefix h hi \<and> cache_ok ks i \<and> cache_ok vs i \<and> length ls = i \<and> valid hi ls \<and>
          (\<forall>p < i. loss_at sd tokens h p (data (hi ! (ls ! p))))"
  using i
proof (induction i)
  case 0
  then show ?case by (simp add: cache_ok_fresh valid_def)
next
  case (Suc i)
  then obtain hi ks vs ls where
    ih: "fold_opt (position_loss sd tokens) [0..<i] (h, fresh_cache, fresh_cache, []) = Some (hi, ks, vs, ls)"
      "prefix h hi" "cache_ok ks i" "cache_ok vs i" "length ls = i" "valid hi ls"
      "\<forall>p < i. loss_at sd tokens h p (data (hi ! (ls ! p)))" by auto
  have "Suc i < length tokens" "i < BLOCK_SIZE" using Suc.prems by auto
  from position_loss_ok[OF sd toks this ih(3,4), of hi ls] obtain logits h1 keys1 values1 probs h2 nl h4 where
    st: "gpt sd (tokens ! i) i ks vs hi = Some (logits, h1, keys1, values1)"
        "softmax logits h1 = Some (probs, h2)"
        "position_loss sd tokens i (hi, ks, vs, ls) = Some (h4, keys1, values1, ls @ [nl])"
        "prefix hi h4" "nl < length h4" "nat (tokens ! Suc i) < length probs"
        "data (h4 ! nl) = - ln (data (h2 ! (probs ! nat (tokens ! Suc i))))"
        "cache_ok keys1 (Suc i)" "cache_ok values1 (Suc i)" by blast
  have f: "fold_opt (position_loss sd tokens) [0..<Suc i] (h, fresh_cache, fresh_cache, [])
             = Some (h4, keys1, values1, ls @ [nl])"
    using ih(1) st(3) by (simp add: fold_opt_snoc)
  have v: "valid h4 (ls @ [nl])"
    using valid_prefix[OF ih(6) st(4)] st(5) by (simp add: valid_def)
  have "\<forall>p < Suc i. loss_at sd tokens h p (data (h4 ! ((ls @ [nl]) ! p)))"
  proof (intro allI impI)
    fix p assume p: "p < Suc i"
    show "loss_at sd tokens h p (data (h4 ! ((ls @ [nl]) ! p)))"
    proof (cases "p = i")
      case True
      have "loss_at sd tokens h i (data (h4 ! nl))"
        unfolding loss_at_def using ih(1) st(1,2,6,7) by blast
      then show ?thesis using True ih(5) by (simp add: nth_append)
    next
      case False
      then have pi: "p < i" using p by simp
      then have "ls ! p < length hi" using ih(5,6) by (simp add: valid_def)
      then have "data (h4 ! (ls ! p)) = data (hi ! (ls ! p))" using st(4) by (simp add: prefix_nth)
      then show ?thesis using ih(7) pi ih(5) by (simp add: nth_append)
    qed
  qed
  moreover have "prefix h h4" using ih(2) st(4) by auto
  ultimately show ?case using f st(8,9) ih(5) v by auto
qed

lemma indexOf_uchars:
  assumes "ch \<in> set (concat docs)"
  shows "0 \<le> indexOf (uchars docs) ch \<and> indexOf (uchars docs) ch < int (vocabSize docs)"
proof -
  have "ch \<in> set (uchars docs)" using assms by (simp add: uchars_def)
  from indexOf_range[OF this] show ?thesis by (simp add: vocabSize_def)
qed

lemma spread_no_surrogate:
  "\<forall>u \<in> set s. \<not> high_surrogate u \<Longrightarrow> spread s = map (\<lambda>u. [u]) s"
  by (induction s rule: spread.induct) simp_all

text \<open>The tokens of a document of a corpus without surrogate pairs are ids of the
  vocabulary. With a surrogate pair they are not: its two code units get the id \<open>-1\<close>.\<close>

lemma tokenize_ok:
  assumes "doc \<in> set docs" "\<forall>u \<in> set (concat docs). \<not> high_surrogate u"
  shows "list_all (\<lambda>t. 0 \<le> t \<and> t < int (vocabSize (corpus docs))) (tokenize docs doc) \<and>
         2 \<le> length (tokenize docs doc)"
proof -
  have c: "concat (corpus docs) = map (\<lambda>u. [u]) (concat docs)"
    using assms(2) by (simp add: corpus_def spread_no_surrogate)
  have "\<forall>ch \<in> set (split_units doc). ch \<in> set (concat (corpus docs))"
    using assms(1) unfolding c by (auto simp: split_units_def)
  then show ?thesis
    using indexOf_uchars[of _ "corpus docs"]
    by (auto simp: tokenize_def list_all_iff BOS_def vocabSize_def)
qed

lemma tokenize_surrogate_pair:
  "tokenize [[55357, 56832, 97]] [55357, 56832, 97] = [2, - 1, - 1, 0, 2]"
  by (simp add: tokenize_def BOS_def uchars_def corpus_def split_units_def
      high_surrogate_def low_surrogate_def)

lemma forward_loss_ok:
  assumes sd: "sd_ok sd V" and toks: "list_all (\<lambda>t. 0 \<le> t \<and> t < int V) tokens"
    and len: "2 \<le> length tokens"
  shows "\<exists>loss losses h' kvKeys kvValues.
           forward_loss sd tokens h = Some (loss, losses, h', kvKeys, kvValues) \<and>
           length losses = min BLOCK_SIZE (length tokens - 1) \<and>
           (\<forall>p < length losses. loss_at sd tokens h p (data (h' ! (losses ! p)))) \<and>
           data (h' ! loss) = (\<Sum>l\<leftarrow>losses. data (h' ! l)) / real (length losses) \<and>
           cache_ok kvKeys (length losses) \<and> cache_ok kvValues (length losses)"
proof -
  define n where "n = min BLOCK_SIZE (length tokens - 1)"
  have n: "min (int BLOCK_SIZE) (int (length tokens) - 1) = int n" "0 < n" "n \<le> BLOCK_SIZE" "n < length tokens"
    using len by (auto simp: n_def BLOCK_SIZE_def)
  from loss_loop[OF sd toks n(3,4), of h] obtain h1 ks vs ls where
    l: "fold_opt (position_loss sd tokens) [0..<n] (h, fresh_cache, fresh_cache, []) = Some (h1, ks, vs, ls)"
       "length ls = n" "valid h1 ls" "\<forall>p < n. loss_at sd tokens h p (data (h1 ! (ls ! p)))"
       "cache_ok ks n" "cache_ok vs n" by blast
  let ?h2 = "h1 @ [\<lparr>data = 0, grad = 0, children = [], localGrads = []\<rparr>]"
  have v2: "\<forall>e \<in> set ls. e < length ?h2" using l(3) by (auto simp: valid_def)
  from reduce_add_data[of "length h1" ?h2 ls] v2 obtain total h3 where
    t: "reduce_heap (\<lambda>sum e h. Some (add_Value sum (Ref e) h)) ls (length h1) ?h2 = Some (total, h3)"
       "prefix ?h2 h3" "total < length h3"
       "data (h3 ! total) = data (?h2 ! length h1) + (\<Sum>e\<leftarrow>ls. data (?h2 ! e))" by auto
  have pos: "0 < real n" using n(2) by simp
  from div_Value_Num_pos[OF pos t(3)] obtain h4 where
    d: "div_Value total (Num (real n)) h3 = Some (length h3 + 2, h4)" "prefix h3 h4"
       "data (h4 ! (length h3 + 2)) = data (h3 ! total) * (real n powr (- 1))" by blast
  have p14: "prefix h1 h4" by (rule prefix_order.trans[OF append_prefixD[OF t(2)] d(2)])
  have same: "\<forall>e \<in> set ls. data (h4 ! e) = data (h1 ! e)"
    using l(3) p14 by (auto simp: valid_def prefix_nth)
  have "map (\<lambda>e. data (?h2 ! e)) ls = map (\<lambda>e. data (h4 ! e)) ls"
    using l(3) same by (auto simp: valid_def nth_append)
  then have "(\<Sum>e\<leftarrow>ls. data (?h2 ! e)) = (\<Sum>e\<leftarrow>ls. data (h4 ! e))"
    by (rule arg_cong[where f = sum_list])
  then have tot: "data (h3 ! total) = (\<Sum>e\<leftarrow>ls. data (h4 ! e))" using t(4) by simp
  have "real n powr (- 1) = inverse (real n)" using pos by (simp add: powr_minus)
  then have ld: "data (h4 ! (length h3 + 2)) = (\<Sum>e\<leftarrow>ls. data (h4 ! e)) / real (length ls)"
    using d(3) tot l(2) by (simp add: divide_inverse)
  have fl: "forward_loss sd tokens h = Some (length h3 + 2, ls, h4, ks, vs)"
    using l(1) t(1) d(1) n(1) by (simp add: forward_loss_def new_Value_def)
  have "\<forall>p < length ls. loss_at sd tokens h p (data (h4 ! (ls ! p)))"
    using l(2,4) same by simp
  moreover have "cache_ok ks (length ls)" "cache_ok vs (length ls)" using l(2,5,6) by simp_all
  moreover have "length ls = min BLOCK_SIZE (length tokens - 1)" using l(2) by (simp add: n_def)
  ultimately show ?thesis using fl ld by blast
qed

lemma sd_ok_ex: "sd_ok ex_sd 3"
  by (simp add: sd_ok_def has_shape_def matrix_ok_def ex_sd_def ex_matrix_def list_all_iff)

lemma ex_tokens_ok: "list_all (\<lambda>t. 0 \<le> t \<and> t < int 3) ex_tokens" "length ex_tokens = 6"
  by (simp_all add: ex_tokens_def)

section \<open>Growth of the caches\<close>

text \<open>
  C7. With parameters of the shapes the program gives them and tokens of the vocabulary,
  at most \<open>BLOCK_SIZE\<close> of them: the fresh caches of a sequence have length 0 in every
  layer; every call of the forward pass of the sequence returns; after the call at
  position \<open>j\<close>, that is after \<open>j + 1\<close> positions, the key cache and the value cache of
  every layer have length \<open>j + 1\<close>. Any call of the forward pass on caches of one
  length returns caches that are, in every layer, the old ones with one entry appended.
  And the caches that the loop over the positions of a training document leaves have, in
  every layer, as many entries as the loop has processed positions.
\<close>

theorem kv_cache_growth:
  assumes "sd_ok sd V" "list_all (\<lambda>t. 0 \<le> t \<and> t < int V) toks" "length toks \<le> BLOCK_SIZE"
  shows "(\<forall>li < N_LAYER. length (fresh_cache ! li) = 0) \<and>
         length (forward_positions sd toks 0 (h, fresh_cache, fresh_cache)) = length toks \<and>
         (\<forall>j < length toks.
            (case forward_positions sd toks 0 (h, fresh_cache, fresh_cache) ! j of
               (logits, h', keys, values) \<Rightarrow>
                  \<forall>li < N_LAYER. length (keys ! li) = Suc j \<and> length (values ! li) = Suc j)) \<and>
         (\<forall>tok pos keys values n h. 0 \<le> tok \<and> tok < int V \<and> pos < BLOCK_SIZE \<and>
              cache_ok keys n \<and> cache_ok values n \<longrightarrow>
            (\<exists>logits h' keys' values'. gpt sd tok pos keys values h = Some (logits, h', keys', values') \<and>
               (\<forall>li < N_LAYER. (\<exists>kv. keys' ! li = keys ! li @ [kv]) \<and>
                               (\<exists>vv. values' ! li = values ! li @ [vv])))) \<and>
         (\<forall>tokens h. list_all (\<lambda>t. 0 \<le> t \<and> t < int V) tokens \<and> 2 \<le> length tokens \<longrightarrow>
            (\<exists>loss losses h' kvKeys kvValues.
               forward_loss sd tokens h = Some (loss, losses, h', kvKeys, kvValues) \<and>
               (\<forall>li < N_LAYER. length (kvKeys ! li) = min BLOCK_SIZE (length tokens - 1) \<and>
                               length (kvValues ! li) = min BLOCK_SIZE (length tokens - 1))))"
proof -
  have a: "\<forall>li < N_LAYER. length (fresh_cache ! li) = 0" by (simp add: fresh_cache_def)
  have "0 + length toks \<le> BLOCK_SIZE" using assms(3) by simp
  note fp = forward_positions_ok[OF assms(1,2) this cache_ok_fresh cache_ok_fresh, of h]
  have b: "length (forward_positions sd toks 0 (h, fresh_cache, fresh_cache)) = length toks"
    by (rule conjunct1[OF fp])
  have c: "\<forall>j < length toks.
            (case forward_positions sd toks 0 (h, fresh_cache, fresh_cache) ! j of
               (logits, h', keys, values) \<Rightarrow>
                  \<forall>li < N_LAYER. length (keys ! li) = Suc j \<and> length (values ! li) = Suc j)"
  proof (intro allI impI)
    fix j assume j: "j < length toks"
    obtain logits h' ks vs where
      r: "forward_positions sd toks 0 (h, fresh_cache, fresh_cache) ! j = (logits, h', ks, vs)"
      by (cases "forward_positions sd toks 0 (h, fresh_cache, fresh_cache) ! j")
    have "cache_ok ks (0 + j + 1) \<and> cache_ok vs (0 + j + 1) \<and> length logits = V"
      using conjunct2[OF fp, rule_format, OF j] unfolding r by simp
    then have "cache_ok ks (Suc j)" "cache_ok vs (Suc j)" by simp_all
    then have "\<forall>li < N_LAYER. length (ks ! li) = Suc j \<and> length (vs ! li) = Suc j"
      by (simp add: cache_ok_length)
    then show "case forward_positions sd toks 0 (h, fresh_cache, fresh_cache) ! j of
               (logits, h', keys, values) \<Rightarrow>
                  \<forall>li < N_LAYER. length (keys ! li) = Suc j \<and> length (values ! li) = Suc j"
      unfolding r by simp
  qed
  have d: "\<forall>tok pos keys values n h. 0 \<le> tok \<and> tok < int V \<and> pos < BLOCK_SIZE \<and>
              cache_ok keys n \<and> cache_ok values n \<longrightarrow>
            (\<exists>logits h' keys' values'. gpt sd tok pos keys values h = Some (logits, h', keys', values') \<and>
               (\<forall>li < N_LAYER. (\<exists>kv. keys' ! li = keys ! li @ [kv]) \<and>
                               (\<exists>vv. values' ! li = values ! li @ [vv])))"
  proof (intro allI impI)
    fix tok pos keys "values" n h'
    assume "0 \<le> tok \<and> tok < int V \<and> pos < BLOCK_SIZE \<and> cache_ok keys n \<and> cache_ok values n"
    then have "0 \<le> tok" "tok < int V" "pos < BLOCK_SIZE" "cache_ok keys n" "cache_ok values n"
      by simp_all
    then show "\<exists>logits h'' keys' values'. gpt sd tok pos keys values h' = Some (logits, h'', keys', values') \<and>
               (\<forall>li < N_LAYER. (\<exists>kv. keys' ! li = keys ! li @ [kv]) \<and>
                               (\<exists>vv. values' ! li = values ! li @ [vv]))"
      by (rule gpt_call[OF assms(1)])
  qed
  have e: "\<forall>tokens h. list_all (\<lambda>t. 0 \<le> t \<and> t < int V) tokens \<and> 2 \<le> length tokens \<longrightarrow>
            (\<exists>loss losses h' kvKeys kvValues.
               forward_loss sd tokens h = Some (loss, losses, h', kvKeys, kvValues) \<and>
               (\<forall>li < N_LAYER. length (kvKeys ! li) = min BLOCK_SIZE (length tokens - 1) \<and>
                               length (kvValues ! li) = min BLOCK_SIZE (length tokens - 1)))"
  proof (intro allI impI)
    fix tokens h0
    assume "list_all (\<lambda>t. 0 \<le> t \<and> t < int V) tokens \<and> 2 \<le> length tokens"
    then have t: "list_all (\<lambda>t. 0 \<le> t \<and> t < int V) tokens" "2 \<le> length tokens" by simp_all
    from forward_loss_ok[OF assms(1) t, of h0] obtain loss losses h' kvKeys kvValues where
      f: "forward_loss sd tokens h0 = Some (loss, losses, h', kvKeys, kvValues)"
         "length losses = min BLOCK_SIZE (length tokens - 1)"
         "cache_ok kvKeys (length losses)" "cache_ok kvValues (length losses)" by blast
    have "\<forall>li < N_LAYER. length (kvKeys ! li) = min BLOCK_SIZE (length tokens - 1) \<and>
                          length (kvValues ! li) = min BLOCK_SIZE (length tokens - 1)"
      using f(2,3,4) by (simp add: cache_ok_length)
    with f(1) show "\<exists>loss losses h' kvKeys kvValues.
               forward_loss sd tokens h0 = Some (loss, losses, h', kvKeys, kvValues) \<and>
               (\<forall>li < N_LAYER. length (kvKeys ! li) = min BLOCK_SIZE (length tokens - 1) \<and>
                               length (kvValues ! li) = min BLOCK_SIZE (length tokens - 1))"
      by blast
  qed
  show ?thesis by (rule conjI[OF a conjI[OF b conjI[OF c conjI[OF d e]]]])
qed

theorem kv_cache_growth_witness:
  "sd_ok ex_sd 3 \<and> list_all (\<lambda>t. 0 \<le> t \<and> t < int 3) ex_tokens \<and>
   length ex_tokens \<le> BLOCK_SIZE \<and>
   length (fresh_cache ! 0) = 0 \<and>
   length (forward_positions ex_sd ex_tokens 0 (ex_param, fresh_cache, fresh_cache)) = 6 \<and>
   (case forward_positions ex_sd ex_tokens 0 (ex_param, fresh_cache, fresh_cache) ! 5 of
      (logits, h', keys, values) \<Rightarrow> length (keys ! 0) = 6 \<and> length (values ! 0) = 6) \<and>
   (\<exists>loss losses h' kvKeys kvValues.
       forward_loss ex_sd ex_tokens ex_param = Some (loss, losses, h', kvKeys, kvValues) \<and>
       length (kvKeys ! 0) = 5 \<and> length (kvValues ! 0) = 5)"
proof -
  have l: "length ex_tokens \<le> BLOCK_SIZE" by (simp add: ex_tokens_def BLOCK_SIZE_def)
  note t = kv_cache_growth [OF sd_ok_ex ex_tokens_ok(1) l, of ex_param]
  have a: "length (fresh_cache ! 0) = 0"
    using t by (simp add: N_LAYER_def)
  have b: "length (forward_positions ex_sd ex_tokens 0 (ex_param, fresh_cache, fresh_cache)) = 6"
    using t ex_tokens_ok(2) by simp
  have "5 < length ex_tokens" by (simp add: ex_tokens_def)
  note t [THEN conjunct2, THEN conjunct2, THEN conjunct1, rule_format, OF this]
  then have c: "case forward_positions ex_sd ex_tokens 0 (ex_param, fresh_cache, fresh_cache) ! 5 of
      (logits, h', keys, values) \<Rightarrow> length (keys ! 0) = 6 \<and> length (values ! 0) = 6"
    by (simp add: N_LAYER_def split: prod.splits)
  have "2 \<le> length ex_tokens" by (simp add: ex_tokens_def)
  with t ex_tokens_ok(1) obtain loss losses h' kvKeys kvValues where
    f: "forward_loss ex_sd ex_tokens ex_param = Some (loss, losses, h', kvKeys, kvValues)"
       "\<forall>li < N_LAYER. length (kvKeys ! li) = min BLOCK_SIZE (length ex_tokens - 1) \<and>
                       length (kvValues ! li) = min BLOCK_SIZE (length ex_tokens - 1)"
    by blast
  have "length (kvKeys ! 0) = 5 \<and> length (kvValues ! 0) = 5"
    using f(2) by (simp add: N_LAYER_def BLOCK_SIZE_def ex_tokens_def)
  with f(1) have d: "\<exists>loss losses h' kvKeys kvValues.
       forward_loss ex_sd ex_tokens ex_param = Some (loss, losses, h', kvKeys, kvValues) \<and>
       length (kvKeys ! 0) = 5 \<and> length (kvValues ! 0) = 5" by blast
  show ?thesis using sd_ok_ex ex_tokens_ok(1) l a b c d by simp
qed

section \<open>No influence of later tokens\<close>

text \<open>
  C2. Two token sequences of equal length that differ at position \<open>p\<close> only, each fed
  through the forward pass position by position from the same store and fresh caches,
  give the same results at every position before \<open>p\<close>: the same logits in the same
  store, and the same key and value caches.
\<close>

theorem causal_prefix:
  assumes "length ts1 = length ts2" "\<forall>i < length ts1. i \<noteq> p \<longrightarrow> ts1 ! i = ts2 ! i"
  shows "take p (forward_positions sd ts1 0 (h, fresh_cache, fresh_cache)) =
         take p (forward_positions sd ts2 0 (h, fresh_cache, fresh_cache))"
proof -
  have "take p ts1 = take p ts2"
    using assms by (intro nth_equalityI) auto
  then show ?thesis by (simp add: forward_positions_take)
qed

theorem causal_prefix_witness:
  "length [2, 0, 1 :: int] = length [2, 1, 1 :: int] \<and>
   [2, 0, 1 :: int] ! 0 = [2, 1, 1] ! 0 \<and> [2, 0, 1 :: int] ! 2 = [2, 1, 1] ! 2 \<and>
   take 1 (forward_positions ex_sd [2, 0, 1] 0 (ex_param, fresh_cache, fresh_cache)) =
   take 1 (forward_positions ex_sd [2, 1, 1] 0 (ex_param, fresh_cache, fresh_cache)) \<and>
   length (take 1 (forward_positions ex_sd [2, 0, 1] 0 (ex_param, fresh_cache, fresh_cache))) = 1"
proof -
  have d: "\<forall>i < length [2, 0, 1 :: int]. i \<noteq> 1 \<longrightarrow> [2, 0, 1 :: int] ! i = [2, 1, 1] ! i"
    by (simp add: All_less_Suc nth_Cons')
  have e: "take 1 (forward_positions ex_sd [2, 0, 1] 0 (ex_param, fresh_cache, fresh_cache)) =
           take 1 (forward_positions ex_sd [2, 1, 1] 0 (ex_param, fresh_cache, fresh_cache))"
    using causal_prefix [of "[2, 0, 1]" "[2, 1, 1]" 1 ex_sd ex_param] d
    by (simp del: forward_positions.simps)
  have "list_all (\<lambda>t. 0 \<le> t \<and> t < int 3) [2, 0, 1]" "0 + length [2, 0, 1 :: int] \<le> BLOCK_SIZE"
    by (simp_all add: BLOCK_SIZE_def)
  from forward_positions_ok[OF sd_ok_ex this cache_ok_fresh cache_ok_fresh, of ex_param]
  have "length (forward_positions ex_sd [2, 0, 1] 0 (ex_param, fresh_cache, fresh_cache)) = 3"
    by (simp del: forward_positions.simps)
  then have f: "length (take 1 (forward_positions ex_sd [2, 0, 1] 0 (ex_param, fresh_cache, fresh_cache))) = 1"
    by (simp del: forward_positions.simps)
  show ?thesis using e f by (simp del: forward_positions.simps)
qed

section \<open>The loss of a training step\<close>



end
